theory Spec2Isabelle
  imports Main "HOL-Library.Word"
begin

unbundle bit_operations_syntax

section \<open>The block cache (cache.c)\<close>

type_synonym byte = "8 word"

text \<open>
  Modelled from the spec: the entry type \<open>cache_entry_t\<close> is declared in cache.h, which
  is not among the sources. The fields are the ones cache.c reads and writes, with the
  types of the spec's data model: a validity flag, the disk and block number (C \<open>int\<close>),
  the 256-byte block and the access tick (C \<open>int\<close>).
\<close>

record cache_entry =
  valid :: bool
  disk_num :: int
  block_num :: int
  block :: "byte list"
  clock_accesses :: int

text \<open>
  The five file-level variables of cache.c. The pointer \<open>cache\<close> is the field
  \<open>cache_arr\<close> (the record would otherwise claim the name \<open>cache_update\<close>): \<open>None\<close>
  when it is \<open>NULL\<close>, and otherwise the allocated array. The C \<open>int\<close> counters are
  modelled as unbounded integers, so every \<open>+ 1\<close> below is the C increment as long as
  the counter is below \<open>INT_MAX\<close>. At \<open>INT_MAX\<close> the C increment overflows, which C
  leaves undefined: the reachable states below only take steps that stay under
  \<open>INT_MAX\<close>, and what is proved of the growth of the clock is proved under that bound.
\<close>

record cache_state =
  cache_arr :: "cache_entry list option"
  cache_size :: int
  clock :: int
  num_queries :: int
  num_hits :: int

definition INT_MAX :: int where
  "INT_MAX = 2147483647"

definition init_cache_state :: cache_state where
  "init_cache_state =
     \<lparr>cache_arr = None, cache_size = 0, clock = 0, num_queries = 0, num_hits = 0\<rparr>"

text \<open>
  The three scanning helpers. Each runs \<open>i\<close> over \<open>0 ..< cache_size\<close> and reads
  \<open>cache[i]\<close>; they are only called once \<open>cache_enabled\<close> has been checked.
\<close>

definition find_cache_entry :: "cache_entry list \<Rightarrow> int \<Rightarrow> int \<Rightarrow> int \<Rightarrow> int" where
  "find_cache_entry es n d b =
     (case find (\<lambda>i. valid (es ! i) \<and> disk_num (es ! i) = d \<and> block_num (es ! i) = b)
                [0 ..< nat n] of
        Some i \<Rightarrow> int i
      | None \<Rightarrow> - 1)"

text \<open>One iteration of the loop of \<open>find_mru_entry\<close> on the pair (mru_index, max_clock).\<close>

definition mru_step :: "cache_entry list \<Rightarrow> nat \<Rightarrow> int \<times> int \<Rightarrow> int \<times> int" where
  "mru_step es i acc =
     (if valid (es ! i) \<and> clock_accesses (es ! i) > snd acc
      then (int i, clock_accesses (es ! i))
      else acc)"

definition find_mru_entry :: "cache_entry list \<Rightarrow> int \<Rightarrow> int" where
  "find_mru_entry es n = fst (fold (mru_step es) [0 ..< nat n] (- 1, - 1))"

definition find_invalid_entry :: "cache_entry list \<Rightarrow> int \<Rightarrow> int" where
  "find_invalid_entry es n =
     (case find (\<lambda>i. \<not> valid (es ! i)) [0 ..< nat n] of
        Some i \<Rightarrow> int i
      | None \<Rightarrow> - 1)"

definition cache_enabled :: "cache_state \<Rightarrow> bool" where
  "cache_enabled s \<longleftrightarrow> cache_arr s \<noteq> None \<and> cache_size s > 0"

text \<open>
  \<open>malloc\<close> is the first argument of the two allocating operations: \<open>None\<close> when it
  returns \<open>NULL\<close>, and \<open>Some g\<close> when it returns a fresh array whose slot \<open>i\<close> holds
  the indeterminate entry \<open>g i\<close>.
\<close>

definition cache_create ::
  "(nat \<Rightarrow> cache_entry) option \<Rightarrow> int \<Rightarrow> cache_state \<Rightarrow> int \<times> cache_state" where
  "cache_create mem num_entries s =
     (if cache_arr s \<noteq> None \<or> num_entries < 2 \<or> num_entries > 4096 then (- 1, s)
      else case mem of
        None \<Rightarrow> (- 1, s)
      | Some g \<Rightarrow>
          (1, s\<lparr>cache_arr := Some (map (\<lambda>i. (g i)\<lparr>valid := False\<rparr>) [0 ..< nat num_entries]),
                cache_size := num_entries,
                clock := 0\<rparr>))"

definition cache_destroy :: "cache_state \<Rightarrow> int \<times> cache_state" where
  "cache_destroy s =
     (if cache_arr s = None then (- 1, s)
      else (1, s\<lparr>cache_arr := None, cache_size := 0, clock := 0,
                 num_queries := 0, num_hits := 0\<rparr>))"

text \<open>
  \<open>cache_lookup\<close> returns the result, the caller's buffer after the call (\<open>None\<close> is
  the \<open>NULL\<close> pointer) and the new state. The \<open>memcpy\<close> overwrites the first 256 bytes
  of the buffer.
\<close>

definition cache_lookup ::
  "int \<Rightarrow> int \<Rightarrow> byte list option \<Rightarrow> cache_state \<Rightarrow> int \<times> byte list option \<times> cache_state" where
  "cache_lookup d b buf s =
     (case cache_arr s of
        None \<Rightarrow> (- 1, buf, s)
      | Some es \<Rightarrow>
          (case buf of
             None \<Rightarrow> (- 1, buf, s)
           | Some out \<Rightarrow>
               if \<not> cache_enabled s \<or> d < 0 \<or> b < 0 then (- 1, buf, s)
               else
                 let s1 = s\<lparr>num_queries := num_queries s + 1\<rparr>;
                     index = find_cache_entry es (cache_size s) d b
                 in if index \<noteq> - 1 then
                      (1, Some (take 256 (block (es ! nat index)) @ drop 256 out),
                       s1\<lparr>num_hits := num_hits s1 + 1,
                          clock := clock s1 + 1,
                          cache_arr := Some (es[nat index :=
                                     (es ! nat index)\<lparr>clock_accesses := clock s1 + 1\<rparr>])\<rparr>)
                    else (- 1, buf, s1)))"

text \<open>The \<open>memcpy\<close> into an entry overwrites its whole 256-byte block.\<close>

definition cache_update :: "int \<Rightarrow> int \<Rightarrow> byte list option \<Rightarrow> cache_state \<Rightarrow> cache_state" where
  "cache_update d b buf s =
     (case cache_arr s of
        None \<Rightarrow> s
      | Some es \<Rightarrow>
          (case buf of
             None \<Rightarrow> s
           | Some src \<Rightarrow>
               if \<not> cache_enabled s \<or> d < 0 \<or> b < 0 then s
               else
                 let index = find_cache_entry es (cache_size s) d b
                 in if index \<noteq> - 1 then
                      s\<lparr>clock := clock s + 1,
                        cache_arr := Some (es[nat index :=
                                   (es ! nat index)\<lparr>block := take 256 src,
                                                     clock_accesses := clock s + 1\<rparr>])\<rparr>
                    else s))"

definition cache_insert ::
  "int \<Rightarrow> int \<Rightarrow> byte list option \<Rightarrow> cache_state \<Rightarrow> int \<times> cache_state" where
  "cache_insert d b buf s =
     (case cache_arr s of
        None \<Rightarrow> (- 1, s)
      | Some es \<Rightarrow>
          (case buf of
             None \<Rightarrow> (- 1, s)
           | Some src \<Rightarrow>
               if \<not> cache_enabled s \<or> d < 0 \<or> b < 0 then (- 1, s)
               else if find_cache_entry es (cache_size s) d b \<noteq> - 1 then (- 1, s)
               else
                 let index0 = find_invalid_entry es (cache_size s);
                     index = (if index0 = - 1 then find_mru_entry es (cache_size s) else index0)
                 in if index = - 1 then (- 1, s)
                    else
                      (1, s\<lparr>clock := clock s + 1,
                            cache_arr := Some (es[nat index :=
                                       (es ! nat index)\<lparr>valid := True,
                                                         disk_num := d,
                                                         block_num := b,
                                                         block := take 256 src,
                                                         clock_accesses := clock s + 1\<rparr>])\<rparr>)))"

text \<open>
  \<open>cache_resize\<close>: the fresh array has every slot marked invalid, then the first
  \<open>entries_to_copy\<close> slots are assigned from the old array one by one.
\<close>

definition cache_resize ::
  "(nat \<Rightarrow> cache_entry) option \<Rightarrow> int \<Rightarrow> cache_state \<Rightarrow> int \<times> cache_state" where
  "cache_resize mem new_size s =
     (if new_size < 2 \<or> new_size > 4096 then (- 1, s)
      else if \<not> cache_enabled s then cache_create mem new_size s
      else case mem of
        None \<Rightarrow> (- 1, s)
      | Some g \<Rightarrow>
          (case cache_arr s of
             None \<Rightarrow> (- 1, s)
           | Some es \<Rightarrow>
               let new_cache = map (\<lambda>i. (g i)\<lparr>valid := False\<rparr>) [0 ..< nat new_size];
                   entries_to_copy = (if new_size < cache_size s then new_size else cache_size s);
                   new_cache' = fold (\<lambda>i nc. nc[i := es ! i]) [0 ..< nat entries_to_copy] new_cache
               in (1, s\<lparr>cache_arr := Some new_cache', cache_size := new_size\<rparr>)))"

text \<open>
  The states the cache can be in: the initial values of the file-level variables, then any
  call of the six operations with any arguments and any outcome of \<open>malloc\<close>. The three
  operations that increment a counter are taken only while the counters are below
  \<open>INT_MAX\<close>, where the C increment is defined.
\<close>

definition no_overflow :: "cache_state \<Rightarrow> bool" where
  "no_overflow s \<longleftrightarrow> clock s < INT_MAX \<and> num_queries s < INT_MAX \<and> num_hits s < INT_MAX"

inductive reachable :: "cache_state \<Rightarrow> bool" where
  r_init: "reachable init_cache_state"
| r_create: "reachable s \<Longrightarrow> reachable (snd (cache_create mem n s))"
| r_destroy: "reachable s \<Longrightarrow> reachable (snd (cache_destroy s))"
| r_lookup: "reachable s \<Longrightarrow> no_overflow s \<Longrightarrow> reachable (snd (snd (cache_lookup d b buf s)))"
| r_update: "reachable s \<Longrightarrow> no_overflow s \<Longrightarrow> reachable (cache_update d b buf s)"
| r_insert: "reachable s \<Longrightarrow> no_overflow s \<Longrightarrow> reachable (snd (cache_insert d b buf s))"
| r_resize: "reachable s \<Longrightarrow> reachable (snd (cache_resize mem n s))"


section \<open>The volume engine (mdadm.c)\<close>

text \<open>The constants and command numbers of jbod.h.\<close>

definition JBOD_NUM_DISKS :: "32 word" where "JBOD_NUM_DISKS = 16"
definition JBOD_DISK_SIZE :: "32 word" where "JBOD_DISK_SIZE = 65536"
definition JBOD_BLOCK_SIZE :: "32 word" where "JBOD_BLOCK_SIZE = 256"

definition JBOD_MOUNT :: byte where "JBOD_MOUNT = 0x00"
definition JBOD_UNMOUNT :: byte where "JBOD_UNMOUNT = 0x01"
definition JBOD_SEEK_TO_DISK :: byte where "JBOD_SEEK_TO_DISK = 0x02"
definition JBOD_SEEK_TO_BLOCK :: byte where "JBOD_SEEK_TO_BLOCK = 0x03"
definition JBOD_READ_BLOCK :: byte where "JBOD_READ_BLOCK = 0x04"
definition JBOD_WRITE_BLOCK :: byte where "JBOD_WRITE_BLOCK = 0x05"
definition JBOD_SIGN_BLOCK :: byte where "JBOD_SIGN_BLOCK = 0x06"
definition JBOD_WRITE_PERMISSION :: byte where "JBOD_WRITE_PERMISSION = 0x08"
definition JBOD_REVOKE_WRITE_PERMISSION :: byte where "JBOD_REVOKE_WRITE_PERMISSION = 0x09"

text \<open>
  The external entry point \<open>jbod_operation(op, block)\<close> is a parameter of the engine: a
  function from the operation word, the block buffer passed (\<open>None\<close> for \<open>NULL\<close>) and
  the state of the disk array to the returned value, the buffer after the call and the
  new state of the array. The engine calls the disk array exactly where the model applies
  this function.
\<close>

type_synonym 'd jbod_op = "32 word \<Rightarrow> byte list option \<Rightarrow> 'd \<Rightarrow> int \<times> byte list option \<times> 'd"

text \<open>
  The two file-level variables of mdadm.c, together with the state of the disk array the
  engine talks to.
\<close>

record 'd volume =
  mounted :: int
  write_permission :: bool
  jbod :: 'd

definition encode_op :: "byte \<Rightarrow> byte \<Rightarrow> byte \<Rightarrow> 32 word" where
  "encode_op cmd disk_id block_id =
     push_bit 12 (ucast cmd) OR push_bit 4 (ucast block_id) OR ucast disk_id"

text \<open>\<open>memcpy(dst + doff, src + soff, n)\<close> on buffers that hold the bytes addressed.\<close>

definition memcpy :: "byte list \<Rightarrow> nat \<Rightarrow> byte list \<Rightarrow> nat \<Rightarrow> nat \<Rightarrow> byte list" where
  "memcpy dst doff src soff n = take doff dst @ take n (drop soff src) @ drop (doff + n) dst"

definition mdadm_mount :: "'d jbod_op \<Rightarrow> 'd volume \<Rightarrow> int \<times> 'd volume" where
  "mdadm_mount jop v =
     (if mounted v \<noteq> 0 then (- 1, v)
      else case jop (encode_op JBOD_MOUNT 0 0) None (jbod v) of
        (r, _, d) \<Rightarrow>
          if r = 0 then (1, v\<lparr>mounted := 1, jbod := d\<rparr>)
          else (- 1, v\<lparr>jbod := d\<rparr>))"

definition mdadm_unmount :: "'d jbod_op \<Rightarrow> 'd volume \<Rightarrow> int \<times> 'd volume" where
  "mdadm_unmount jop v =
     (if mounted v = 0 then (- 1, v)
      else case jop (encode_op JBOD_UNMOUNT 0 0) None (jbod v) of
        (r, _, d) \<Rightarrow>
          if r = 0 then (1, v\<lparr>mounted := 0, jbod := d\<rparr>)
          else (- 1, v\<lparr>jbod := d\<rparr>))"

text \<open>
  The address computation at the head of both loop bodies (lines 74 to 85 of
  \<open>mdadm_read\<close>, and again lines 162 to 173 of \<open>mdadm_write\<close>): from the start
  address, the length of the call and the bytes already transferred to the disk number,
  the block number, the offset in the block and the number of bytes of this segment. The
  locals \<open>disk_num\<close> and \<open>block_num\<close> are written \<open>disk_no\<close> and \<open>block_no\<close>,
  apart from the fields of a cache entry.
\<close>

definition segment :: "32 word \<Rightarrow> 32 word \<Rightarrow> 32 word \<Rightarrow> 32 word \<times> 32 word \<times> 32 word \<times> 32 word" where
  "segment start_addr len bytes_done =
     (let addr = start_addr + bytes_done;
          disk_no = addr div JBOD_DISK_SIZE;
          addr_in_disk = addr mod JBOD_DISK_SIZE;
          block_no = addr_in_disk div JBOD_BLOCK_SIZE;
          offset_in_block = addr_in_disk mod JBOD_BLOCK_SIZE;
          bytes_left_in_block = JBOD_BLOCK_SIZE - offset_in_block;
          bytes_to_xfer = len - bytes_done
      in (disk_no, block_no, offset_in_block,
          if bytes_to_xfer > bytes_left_in_block then bytes_left_in_block else bytes_to_xfer))"

text \<open>
  The local array \<open>block\<close>. \<open>mdadm_write\<close> initialises it to zeros. \<open>mdadm_read\<close>
  leaves it uninitialised and hands it to the read-block command at once; the model passes
  zeros there too. A buffer the array hands back as \<open>NULL\<close> leaves the block as it was.
\<close>

definition zero_block :: "byte list" where
  "zero_block = replicate 256 0"

definition block_after :: "byte list \<Rightarrow> byte list option \<Rightarrow> byte list" where
  "block_after blk r = (case r of None \<Rightarrow> blk | Some b \<Rightarrow> b)"

function read_loop ::
  "'d jbod_op \<Rightarrow> 32 word \<Rightarrow> 32 word \<Rightarrow> 32 word \<Rightarrow> byte list option \<Rightarrow> 'd
     \<Rightarrow> int \<times> byte list option \<times> 'd" where
  "read_loop jop start_addr read_len bytes_read read_buf d =
     (if bytes_read < read_len then
        case segment start_addr read_len bytes_read of
          (disk_no, block_no, offset_in_block, bytes_to_read) \<Rightarrow>
        case jop (encode_op JBOD_SEEK_TO_DISK (ucast (disk_no AND 0x0F)) 0) None d of
          (r1, _, d1) \<Rightarrow>
        if r1 \<noteq> 0 then (- 4, read_buf, d1)
        else case jop (encode_op JBOD_SEEK_TO_BLOCK 0 (ucast (block_no AND 0xFF))) None d1 of
          (r2, _, d2) \<Rightarrow>
        if r2 \<noteq> 0 then (- 4, read_buf, d2)
        else case jop (encode_op JBOD_READ_BLOCK 0 0) (Some zero_block) d2 of
          (r3, blk, d3) \<Rightarrow>
        if r3 \<noteq> 0 then (- 4, read_buf, d3)
        else read_loop jop start_addr read_len (bytes_read + bytes_to_read)
               (map_option (\<lambda>out. memcpy out (unat bytes_read) (block_after zero_block blk)
                                     (unat offset_in_block) (unat bytes_to_read)) read_buf)
               d3
      else (uint bytes_read, read_buf, d))"
  by pat_completeness auto

termination read_loop
proof (relation "measure (\<lambda>(jop, start_addr, read_len, bytes_read, read_buf, d).
                           unat (read_len - bytes_read))", goal_cases)
  case 1
  show ?case by simp
next
  case (2 jop start_addr read_len bytes_read read_buf d dno t1 bno t2 off n)
  have nz: "256 - a mod 256 \<noteq> 0" for a :: "32 word"
  proof -
    have "a mod 256 < 256" by (rule word_mod_less_divisor) simp
    then show ?thesis by unat_arith
  qed
  have dec: "unat (x - l) < unat x" if "l \<noteq> 0" "l \<le> x" for x l :: "32 word"
    using that by unat_arith
  have pos: "read_len - bytes_read \<noteq> 0"
    using 2(1) by unat_arith
  have "n \<noteq> 0 \<and> n \<le> read_len - bytes_read"
    using 2(2,3,4) nz pos
    by (auto simp: segment_def Let_def JBOD_BLOCK_SIZE_def JBOD_DISK_SIZE_def split: if_splits)
  then have "unat (read_len - bytes_read - n) < unat (read_len - bytes_read)"
    using dec by blast
  then show ?case
    by (simp add: diff_diff_eq)
qed

definition mdadm_read ::
  "'d jbod_op \<Rightarrow> 32 word \<Rightarrow> 32 word \<Rightarrow> byte list option \<Rightarrow> 'd volume
     \<Rightarrow> int \<times> byte list option \<times> 'd volume" where
  "mdadm_read jop start_addr read_len read_buf v =
     (if mounted v = 0 then (- 3, read_buf, v)
      else if read_len > 1024 then (- 2, read_buf, v)
      else if read_len > 0 \<and> read_buf = None then (- 4, read_buf, v)
      else
        let max_addr = JBOD_NUM_DISKS * JBOD_DISK_SIZE
        in if start_addr + read_len > max_addr \<or> start_addr + read_len < start_addr
           then (- 1, read_buf, v)
           else case read_loop jop start_addr read_len 0 read_buf (jbod v) of
             (r, out, d) \<Rightarrow> (r, out, v\<lparr>jbod := d\<rparr>))"

definition mdadm_write_permission :: "'d volume \<Rightarrow> int \<times> 'd volume" where
  "mdadm_write_permission v = (0, v\<lparr>write_permission := True\<rparr>)"

definition mdadm_revoke_write_permission :: "'d volume \<Rightarrow> int \<times> 'd volume" where
  "mdadm_revoke_write_permission v = (0, v\<lparr>write_permission := False\<rparr>)"

text \<open>
  The loop of \<open>mdadm_write\<close>. The read-block command is issued only on the branch of
  line 192; on the other branch the block stays the zero block and the array is not called.
\<close>

function write_loop ::
  "'d jbod_op \<Rightarrow> 32 word \<Rightarrow> 32 word \<Rightarrow> 32 word \<Rightarrow> byte list \<Rightarrow> 'd \<Rightarrow> int \<times> 'd" where
  "write_loop jop start_addr write_len bytes_written write_buf d =
     (if bytes_written < write_len then
        case segment start_addr write_len bytes_written of
          (disk_no, block_no, offset_in_block, bytes_to_write) \<Rightarrow>
        case jop (encode_op JBOD_SEEK_TO_DISK (ucast disk_no) 0) None d of
          (r1, _, d1) \<Rightarrow>
        if r1 \<noteq> 0 then (- 4, d1)
        else case jop (encode_op JBOD_SEEK_TO_BLOCK 0 (ucast block_no)) None d1 of
          (r2, _, d2) \<Rightarrow>
        if r2 \<noteq> 0 then (- 4, d2)
        else case (if bytes_to_write < JBOD_BLOCK_SIZE \<or> offset_in_block \<noteq> 0
                   then jop (encode_op JBOD_READ_BLOCK 0 0) (Some zero_block) d2
                   else (0, Some zero_block, d2)) of
          (r3, blk, d3) \<Rightarrow>
        if r3 \<noteq> 0 then (- 4, d3)
        else case jop (encode_op JBOD_WRITE_BLOCK 0 0)
                      (Some (memcpy (block_after zero_block blk) (unat offset_in_block)
                                    write_buf (unat bytes_written) (unat bytes_to_write)))
                      d3 of
          (r4, _, d4) \<Rightarrow>
        if r4 \<noteq> 0 then (- 4, d4)
        else write_loop jop start_addr write_len (bytes_written + bytes_to_write) write_buf d4
      else (uint bytes_written, d))"
  by pat_completeness auto
termination write_loop
proof (relation "measure (\<lambda>(jop, start_addr, write_len, bytes_written, write_buf, d).
                           unat (write_len - bytes_written))", goal_cases)
  case 1
  show ?case by simp
next
  case (2 jop start_addr write_len bytes_written write_buf d dno t1 bno t2 off n)
  have nz: "256 - a mod 256 \<noteq> 0" for a :: "32 word"
  proof -
    have "a mod 256 < 256" by (rule word_mod_less_divisor) simp
    then show ?thesis by unat_arith
  qed
  have dec: "unat (x - l) < unat x" if "l \<noteq> 0" "l \<le> x" for x l :: "32 word"
    using that by unat_arith
  have pos: "write_len - bytes_written \<noteq> 0"
    using 2(1) by unat_arith
  have "n \<noteq> 0 \<and> n \<le> write_len - bytes_written"
    using 2(2,3,4) nz pos
    by (auto simp: segment_def Let_def JBOD_BLOCK_SIZE_def JBOD_DISK_SIZE_def split: if_splits)
  then have "unat (write_len - bytes_written - n) < unat (write_len - bytes_written)"
    using dec by blast
  then show ?case
    by (simp add: diff_diff_eq)
qed

text \<open>
  Past the check of line 143 a write of positive length has a buffer; the model reads a
  \<open>NULL\<close> buffer as the empty list on the branches where it is never read.
\<close>

definition mdadm_write ::
  "'d jbod_op \<Rightarrow> 32 word \<Rightarrow> 32 word \<Rightarrow> byte list option \<Rightarrow> 'd volume \<Rightarrow> int \<times> 'd volume" where
  "mdadm_write jop start_addr write_len write_buf v =
     (if mounted v = 0 then (- 3, v)
      else if \<not> write_permission v then (- 5, v)
      else if write_len > 1024 then (- 2, v)
      else if write_len > 0 \<and> write_buf = None then (- 4, v)
      else if write_len = 0 then (0, v)
      else
        let max_addr = JBOD_NUM_DISKS * JBOD_DISK_SIZE
        in if start_addr + write_len > max_addr \<or> start_addr + write_len < start_addr
           then (- 1, v)
           else case write_loop jop start_addr write_len 0
                       (case write_buf of None \<Rightarrow> [] | Some b \<Rightarrow> b) (jbod v) of
             (r, d) \<Rightarrow> (r, v\<lparr>jbod := d\<rparr>))"

section \<open>The disk array behind the operation interface\<close>

text \<open>
  Modelled from the spec: \<open>jbod_operation\<close> is only declared in jbod.h; the disk array
  that implements it is an external collaborator. The spec's section 6 gives its
  behaviour: the operation word is \<open>(command << 12) | (block_index << 4) | disk_index\<close>
  with a 4-bit disk index and an 8-bit block index; the array keeps a current disk and a
  current block, set by the seek commands; the read-block and write-block commands act on
  the block under that cursor; the result is 0 on success and nonzero on failure. An
  array that is not mounted refuses every command but mount. The model also records every
  operation word it receives, in order, in \<open>issued\<close>. The commands the engine never
  sends (sign-block, the reserved number, the two permission commands) are answered with
  a failure.
\<close>

record jbod_dev =
  dev_mounted :: bool
  cur_disk :: nat
  cur_block :: nat
  store :: "nat \<Rightarrow> nat \<Rightarrow> byte list"
  issued :: "32 word list"

definition jbod_operation :: "jbod_dev jbod_op" where
  "jbod_operation op buf d0 =
     (let cmd = (ucast (drop_bit 12 op) :: byte);
          blk = unat (drop_bit 4 op AND 0xFF);
          dsk = unat (op AND 0x0F);
          d = d0\<lparr>issued := issued d0 @ [op]\<rparr>
      in if cmd = JBOD_MOUNT then
           (if dev_mounted d then (- 1, buf, d) else (0, buf, d\<lparr>dev_mounted := True\<rparr>))
         else if \<not> dev_mounted d then (- 1, buf, d)
         else if cmd = JBOD_UNMOUNT then (0, buf, d\<lparr>dev_mounted := False\<rparr>)
         else if cmd = JBOD_SEEK_TO_DISK then (0, buf, d\<lparr>cur_disk := dsk\<rparr>)
         else if cmd = JBOD_SEEK_TO_BLOCK then (0, buf, d\<lparr>cur_block := blk\<rparr>)
         else if cmd = JBOD_READ_BLOCK then
           (case buf of
              None \<Rightarrow> (- 1, buf, d)
            | Some _ \<Rightarrow> (0, Some (store d (cur_disk d) (cur_block d)), d))
         else if cmd = JBOD_WRITE_BLOCK then
           (case buf of
              None \<Rightarrow> (- 1, buf, d)
            | Some b \<Rightarrow>
                (0, buf, d\<lparr>store := (store d)(cur_disk d :=
                                       (store d (cur_disk d))(cur_block d := take 256 b))\<rparr>))
         else (- 1, buf, d))"

text \<open>An array that fails every command, and one whose blocks all hold zeros.\<close>

definition jbod_broken :: "unit jbod_op" where
  "jbod_broken op buf d = (- 1, buf, d)"

definition blank_dev :: jbod_dev where
  "blank_dev = \<lparr>dev_mounted = True, cur_disk = 0, cur_block = 0,
                 store = (\<lambda>_ _. zero_block), issued = []\<rparr>"

text \<open>The byte of the linear volume at address \<open>a\<close>, as the array stores it.\<close>

definition volume_byte :: "jbod_dev \<Rightarrow> nat \<Rightarrow> byte" where
  "volume_byte d a = store d (a div 65536) (a mod 65536 div 256) ! (a mod 256)"

section \<open>The failure kinds of the spec\<close>

text \<open>
  The spec names the failures of \<open>read\<close> and \<open>write\<close>; the code returns integers.
  \<open>read_failure\<close> and \<open>write_failure\<close> follow the words of the spec's section 4.3 for
  the failures detected before any disk access, and \<open>result_value\<close> is the integer the
  code returns for each kind.
\<close>

datatype failure =
  NotMounted | PermissionDenied | LengthTooLarge | NullBuffer | OutOfRange | DeviceError

definition out_of_range :: "32 word \<Rightarrow> 32 word \<Rightarrow> bool" where
  "out_of_range start_addr len \<longleftrightarrow> unat start_addr + unat len > 16 * 65536"

definition read_failure :: "'d volume \<Rightarrow> 32 word \<Rightarrow> 32 word \<Rightarrow> byte list option \<Rightarrow> failure option" where
  "read_failure v start_addr len buf =
     (if mounted v = 0 then Some NotMounted
      else if unat len > 1024 then Some LengthTooLarge
      else if unat len > 0 \<and> buf = None then Some NullBuffer
      else if out_of_range start_addr len then Some OutOfRange
      else None)"

definition write_failure :: "'d volume \<Rightarrow> 32 word \<Rightarrow> 32 word \<Rightarrow> byte list option \<Rightarrow> failure option" where
  "write_failure v start_addr len buf =
     (if mounted v = 0 then Some NotMounted
      else if \<not> write_permission v then Some PermissionDenied
      else if unat len > 1024 then Some LengthTooLarge
      else if unat len > 0 \<and> buf = None then Some NullBuffer
      else if unat len = 0 then None
      else if out_of_range start_addr len then Some OutOfRange
      else None)"

fun result_value :: "failure \<Rightarrow> int" where
  "result_value NotMounted = - 3"
| "result_value PermissionDenied = - 5"
| "result_value LengthTooLarge = - 2"
| "result_value NullBuffer = - 4"
| "result_value OutOfRange = - 1"
| "result_value DeviceError = - 4"

section \<open>The commands a call sends\<close>

text \<open>
  To speak of the commands a call sends and of the answers it gets, the operation
  interface is wrapped: \<open>recording jop\<close> behaves as \<open>jop\<close> on the state of the array and
  appends every operation word it is called with, together with the value returned, to a
  list kept beside that state. \<open>recorded v\<close> is the volume \<open>v\<close> with an empty list,
  \<open>read_answers\<close> and \<open>write_answers\<close> are the lists after a call, and a list is
  \<open>refused\<close> when some answer in it is not 0.
\<close>

definition recording :: "'d jbod_op \<Rightarrow> ('d \<times> (32 word \<times> int) list) jbod_op" where
  "recording jop op buf s =
     (case jop op buf (fst s) of (r, b, d) \<Rightarrow> (r, b, (d, snd s @ [(op, r)])))"

definition recorded :: "'d volume \<Rightarrow> ('d \<times> (32 word \<times> int) list) volume" where
  "recorded v = \<lparr>mounted = mounted v, write_permission = write_permission v,
                  jbod = (jbod v, [])\<rparr>"

definition refused :: "(32 word \<times> int) list \<Rightarrow> bool" where
  "refused answers \<longleftrightarrow> (\<exists>e\<in>set answers. snd e \<noteq> 0)"

definition read_answers ::
  "'d jbod_op \<Rightarrow> 32 word \<Rightarrow> 32 word \<Rightarrow> byte list option \<Rightarrow> 'd volume \<Rightarrow> (32 word \<times> int) list" where
  "read_answers jop start_addr len buf v =
     snd (jbod (snd (snd (mdadm_read (recording jop) start_addr len buf (recorded v)))))"

definition write_answers ::
  "'d jbod_op \<Rightarrow> 32 word \<Rightarrow> 32 word \<Rightarrow> byte list option \<Rightarrow> 'd volume \<Rightarrow> (32 word \<times> int) list" where
  "write_answers jop start_addr len buf v =
     snd (jbod (snd (mdadm_write (recording jop) start_addr len buf (recorded v))))"

text \<open>An array that accepts every command but write-block.\<close>

definition refuse_write :: "unit jbod_op" where
  "refuse_write op buf d = (if op = encode_op JBOD_WRITE_BLOCK 0 0 then - 1 else 0, buf, d)"

section \<open>Invariants of the cache\<close>

text \<open>No two valid slots hold the same (disk, block) pair.\<close>

definition unique_keys :: "cache_entry list \<Rightarrow> bool" where
  "unique_keys es \<longleftrightarrow>
     (\<forall>i<length es. \<forall>j<length es.
        valid (es ! i) \<and> valid (es ! j) \<and>
        disk_num (es ! i) = disk_num (es ! j) \<and> block_num (es ! i) = block_num (es ! j)
        \<longrightarrow> i = j)"

text \<open>
  What holds of the five variables between calls: without a cache all counters are zero;
  with a cache the array has \<open>cache_size\<close> slots, the size is in range, the clock is not
  negative, every valid slot carries a tick of at least 1, and the keys are unique.
\<close>

definition cache_inv :: "cache_state \<Rightarrow> bool" where
  "cache_inv s \<longleftrightarrow>
     (case cache_arr s of
        None \<Rightarrow> cache_size s = 0 \<and> clock s = 0 \<and> num_queries s = 0 \<and> num_hits s = 0
      | Some es \<Rightarrow>
          int (length es) = cache_size s \<and> 2 \<le> cache_size s \<and> cache_size s \<le> 4096 \<and>
          0 \<le> clock s \<and>
          (\<forall>i<length es. valid (es ! i) \<longrightarrow> 1 \<le> clock_accesses (es ! i)) \<and>
          unique_keys es)"

section \<open>Example states\<close>

text \<open>A full cache of three slots in which the two highest ticks are equal.\<close>

definition tied_cache :: cache_state where
  "tied_cache =
     \<lparr>cache_arr = Some
        [\<lparr>valid = True, disk_num = 0, block_num = 0, block = [], clock_accesses = 3\<rparr>,
         \<lparr>valid = True, disk_num = 0, block_num = 1, block = [], clock_accesses = 5\<rparr>,
         \<lparr>valid = True, disk_num = 0, block_num = 2, block = [], clock_accesses = 5\<rparr>],
      cache_size = 3, clock = 5, num_queries = 0, num_hits = 0\<rparr>"

text \<open>
  What \<open>malloc\<close> may hand out: every slot looks like a valid entry with a negative tick.
\<close>

definition junk_mem :: "nat \<Rightarrow> cache_entry" where
  "junk_mem i = \<lparr>valid = True, disk_num = 7, block_num = 7, block = [], clock_accesses = - 9\<rparr>"

text \<open>A cache of two slots after two inserts, and the state after a lookup and a teardown.\<close>

definition warm_cache :: cache_state where
  "warm_cache =
     snd (cache_insert 0 1 (Some [2])
       (snd (cache_insert 0 0 (Some [1])
         (snd (cache_create (Some junk_mem) 2 init_cache_state)))))"

definition torn_down :: cache_state where
  "torn_down = snd (cache_destroy (snd (snd (cache_lookup 0 1 (Some []) warm_cache))))"

text \<open>
  A mounted volume with write permission on a blank array, and one on an array that fails
  every command.
\<close>

definition mounted_volume :: "jbod_dev volume" where
  "mounted_volume = \<lparr>mounted = 1, write_permission = True, jbod = blank_dev\<rparr>"

definition broken_volume :: "unit volume" where
  "broken_volume = \<lparr>mounted = 1, write_permission = True, jbod = ()\<rparr>"

text \<open>A mounted volume on an array whose every byte is \<open>0xAA\<close>.\<close>

definition patterned_dev :: jbod_dev where
  "patterned_dev = \<lparr>dev_mounted = True, cur_disk = 0, cur_block = 0,
                     store = (\<lambda>_ _. replicate 256 0xAA), issued = []\<rparr>"

definition patterned_volume :: "jbod_dev volume" where
  "patterned_volume = \<lparr>mounted = 1, write_permission = True, jbod = patterned_dev\<rparr>"

section \<open>Facts about the scans\<close>

lemma find_upt_None:
  "find P [0 ..< n] = None \<longleftrightarrow> (\<forall>i<n. \<not> P i)"
  by (auto simp: find_None_iff)

lemma find_upt_Some:
  "find P [0 ..< n] = Some k \<longleftrightarrow> k < n \<and> P k \<and> (\<forall>j<k. \<not> P j)"
  by (auto simp: find_Some_iff)

lemma scan_index_cases:
  fixes P :: "nat \<Rightarrow> bool" and n :: nat
  defines "r \<equiv> (case find P [0 ..< n] of Some i \<Rightarrow> int i | None \<Rightarrow> - 1)"
  shows "(r = - 1 \<and> (\<forall>i<n. \<not> P i)) \<or> (\<exists>k<n. r = int k \<and> P k \<and> (\<forall>j<k. \<not> P j))"
proof (cases "find P [0 ..< n]")
  case None
  have "\<forall>i<n. \<not> P i"
    using None find_upt_None [of P n] by blast
  moreover have "r = - 1"
    using None by (simp add: r_def)
  ultimately show ?thesis by blast
next
  case (Some k)
  have "k < n \<and> P k \<and> (\<forall>j<k. \<not> P j)"
    using Some find_upt_Some [of P n k] by blast
  moreover have "r = int k"
    using Some by (simp add: r_def)
  ultimately show ?thesis by blast
qed

lemma find_cache_entry_miss:
  "find_cache_entry es n d b = - 1 \<longleftrightarrow>
     (\<forall>i<nat n. \<not> (valid (es ! i) \<and> disk_num (es ! i) = d \<and> block_num (es ! i) = b))"
  using scan_index_cases
          [of "\<lambda>i. valid (es ! i) \<and> disk_num (es ! i) = d \<and> block_num (es ! i) = b" "nat n"]
  unfolding find_cache_entry_def by fastforce

lemma find_cache_entry_hit:
  assumes "find_cache_entry es n d b \<noteq> - 1"
  shows "\<exists>k<nat n. find_cache_entry es n d b = int k \<and> valid (es ! k) \<and>
           disk_num (es ! k) = d \<and> block_num (es ! k) = b"
  using scan_index_cases
          [of "\<lambda>i. valid (es ! i) \<and> disk_num (es ! i) = d \<and> block_num (es ! i) = b" "nat n"]
        assms
  unfolding find_cache_entry_def by fastforce

lemma find_invalid_entry_none:
  "find_invalid_entry es n = - 1 \<longleftrightarrow> (\<forall>i<nat n. valid (es ! i))"
  using scan_index_cases [of "\<lambda>i. \<not> valid (es ! i)" "nat n"]
  unfolding find_invalid_entry_def by fastforce

lemma find_invalid_entry_some:
  assumes "find_invalid_entry es n \<noteq> - 1"
  shows "\<exists>k<nat n. find_invalid_entry es n = int k \<and> \<not> valid (es ! k)"
  using scan_index_cases [of "\<lambda>i. \<not> valid (es ! i)" "nat n"] assms
  unfolding find_invalid_entry_def by fastforce

text \<open>
  The scan of \<open>find_mru_entry\<close> after \<open>n\<close> slots: the running maximum bounds every valid
  tick seen, and the index is either still \<open>-1\<close> or the first slot that carries it.
\<close>

lemma mru_scan:
  "case fold (mru_step es) [0 ..< n] (- 1, - 1) of (k, m) \<Rightarrow>
     (\<forall>i<n. valid (es ! i) \<longrightarrow> clock_accesses (es ! i) \<le> m) \<and>
     (if k = - 1 then m = - 1
      else 0 \<le> k \<and> nat k < n \<and> valid (es ! nat k) \<and> m = clock_accesses (es ! nat k) \<and>
           - 1 < m \<and> (\<forall>i<nat k. valid (es ! i) \<longrightarrow> clock_accesses (es ! i) < m))"
proof (induction n)
  case 0
  show ?case by simp
next
  case (Suc n)
  obtain k m where km: "fold (mru_step es) [0 ..< n] (- 1, - 1) = (k, m)"
    by (cases "fold (mru_step es) [0 ..< n] (- 1, - 1)")
  with Suc show ?case
    by (auto simp: mru_step_def less_Suc_eq split: if_splits)
qed

lemma find_mru_entry_full:
  assumes "\<forall>i<nat n. valid (es ! i) \<and> 0 \<le> clock_accesses (es ! i)" "0 < n"
  shows "\<exists>k<nat n. find_mru_entry es n = int k \<and>
           (\<forall>i<nat n. clock_accesses (es ! i) \<le> clock_accesses (es ! k)) \<and>
           (\<forall>i<k. clock_accesses (es ! i) < clock_accesses (es ! k))"
proof -
  obtain k m where km: "fold (mru_step es) [0 ..< nat n] (- 1, - 1) = (k, m)"
    by (cases "fold (mru_step es) [0 ..< nat n] (- 1, - 1)")
  have "(\<forall>i<nat n. valid (es ! i) \<longrightarrow> clock_accesses (es ! i) \<le> m) \<and>
     (if k = - 1 then m = - 1
      else 0 \<le> k \<and> nat k < nat n \<and> valid (es ! nat k) \<and> m = clock_accesses (es ! nat k) \<and>
           - 1 < m \<and> (\<forall>i<nat k. valid (es ! i) \<longrightarrow> clock_accesses (es ! i) < m))"
    using mru_scan [where es = es and n = "nat n"] by (simp only: km split)
  then have bound: "\<forall>i<nat n. valid (es ! i) \<longrightarrow> clock_accesses (es ! i) \<le> m"
    and shape: "if k = - 1 then m = - 1
      else 0 \<le> k \<and> nat k < nat n \<and> valid (es ! nat k) \<and> m = clock_accesses (es ! nat k) \<and>
           - 1 < m \<and> (\<forall>i<nat k. valid (es ! i) \<longrightarrow> clock_accesses (es ! i) < m)"
    by blast+
  have "k \<noteq> - 1"
  proof
    assume "k = - 1"
    with shape have "m = - 1" by simp
    moreover have "0 < nat n" using assms(2) by simp
    ultimately show False using bound assms(1) by force
  qed
  with shape bound assms(1) km show ?thesis
    by (intro exI [of _ "nat k"]) (auto simp: find_mru_entry_def)
qed

lemma entry_all_fields:
  fixes e :: cache_entry
  shows "e\<lparr>valid := v, disk_num := x, block_num := y, block := z, clock_accesses := t\<rparr> =
         \<lparr>valid = v, disk_num = x, block_num = y, block = z, clock_accesses = t\<rparr>"
  by (cases e) simp

text \<open>The copy loop of \<open>cache_resize\<close> after \<open>k\<close> assignments.\<close>

lemma copy_loop_nth:
  assumes "k \<le> length nc"
  shows "length (fold (\<lambda>i nc. nc[i := es ! i]) [0 ..< k] nc) = length nc \<and>
         (\<forall>i<length nc. fold (\<lambda>i nc. nc[i := es ! i]) [0 ..< k] nc ! i =
                           (if i < k then es ! i else nc ! i))"
  using assms
proof (induction k)
  case 0
  show ?case by simp
next
  case (Suc k)
  then show ?case
    by (auto simp: nth_list_update less_Suc_eq)
qed

lemma copy_loop:
  assumes "k \<le> length nc" "k \<le> length es"
  shows "fold (\<lambda>i nc. nc[i := es ! i]) [0 ..< k] nc = take k es @ drop k nc"
proof (rule nth_equalityI)
  show "length (fold (\<lambda>i nc. nc[i := es ! i]) [0 ..< k] nc) = length (take k es @ drop k nc)"
    using assms copy_loop_nth [OF assms(1), of es] by simp
next
  fix i
  assume "i < length (fold (\<lambda>i nc. nc[i := es ! i]) [0 ..< k] nc)"
  then have i: "i < length nc"
    using copy_loop_nth [OF assms(1), of es] by simp
  then show "fold (\<lambda>i nc. nc[i := es ! i]) [0 ..< k] nc ! i = (take k es @ drop k nc) ! i"
    using assms copy_loop_nth [OF assms(1), of es] by (auto simp: nth_append)
qed

lemma find_mru_entry_range:
  assumes "find_mru_entry es n \<noteq> - 1"
  shows "\<exists>k<nat n. find_mru_entry es n = int k"
proof -
  obtain k m where km: "fold (mru_step es) [0 ..< nat n] (- 1, - 1) = (k, m)"
    by (cases "fold (mru_step es) [0 ..< nat n] (- 1, - 1)")
  have "(\<forall>i<nat n. valid (es ! i) \<longrightarrow> clock_accesses (es ! i) \<le> m) \<and>
     (if k = - 1 then m = - 1
      else 0 \<le> k \<and> nat k < nat n \<and> valid (es ! nat k) \<and> m = clock_accesses (es ! nat k) \<and>
           - 1 < m \<and> (\<forall>i<nat k. valid (es ! i) \<longrightarrow> clock_accesses (es ! i) < m))"
    using mru_scan [where es = es and n = "nat n"] by (simp only: km split)
  then have "if k = - 1 then m = - 1 else 0 \<le> k \<and> nat k < nat n"
    by (simp split: if_splits)
  moreover have "k \<noteq> - 1"
    using assms km by (simp add: find_mru_entry_def)
  ultimately have "0 \<le> k \<and> nat k < nat n" by simp
  then show ?thesis
    using km by (intro exI [of _ "nat k"]) (simp add: find_mru_entry_def)
qed

lemma unique_keys_insert:
  assumes "unique_keys es" "k < length es"
    and "\<forall>i<length es. \<not> (valid (es ! i) \<and> disk_num (es ! i) = d \<and> block_num (es ! i) = b)"
    and "disk_num e = d" "block_num e = b"
  shows "unique_keys (es[k := e])"
  unfolding unique_keys_def
proof (intro allI impI)
  fix i j
  assume ij: "i < length (es[k := e])" "j < length (es[k := e])"
    and eq: "valid (es[k := e] ! i) \<and> valid (es[k := e] ! j) \<and>
         disk_num (es[k := e] ! i) = disk_num (es[k := e] ! j) \<and>
         block_num (es[k := e] ! i) = block_num (es[k := e] ! j)"
  show "i = j"
  proof (cases "i = k")
    case ik: True
    show ?thesis
    proof (rule ccontr)
      assume "i \<noteq> j"
      with ik ij eq assms(2,4,5) have "valid (es ! j) \<and> disk_num (es ! j) = d \<and> block_num (es ! j) = b"
        by (simp add: nth_list_update)
      with assms(3) ij show False by auto
    qed
  next
    case ik: False
    show ?thesis
    proof (cases "j = k")
      case True
      show ?thesis
      proof (rule ccontr)
        assume "i \<noteq> j"
        with True ij eq assms(2,4,5) have "valid (es ! i) \<and> disk_num (es ! i) = d \<and> block_num (es ! i) = b"
          by (simp add: nth_list_update)
        with assms(3) ij show False by auto
      qed
    next
      case False
      with ik ij eq have "valid (es ! i) \<and> valid (es ! j) \<and> disk_num (es ! i) = disk_num (es ! j) \<and>
           block_num (es ! i) = block_num (es ! j)"
        by simp
      with assms(1) ij show ?thesis
        unfolding unique_keys_def by simp
    qed
  qed
qed

lemma unique_keys_restamp:
  assumes "unique_keys es" "k < length es"
    and "valid e = valid (es ! k)" "disk_num e = disk_num (es ! k)" "block_num e = block_num (es ! k)"
  shows "unique_keys (es[k := e])"
proof -
  have same: "valid (es[k := e] ! x) = valid (es ! x) \<and>
              disk_num (es[k := e] ! x) = disk_num (es ! x) \<and>
              block_num (es[k := e] ! x) = block_num (es ! x)" if "x < length es" for x
    using that assms(2-) by (cases "x = k") simp_all
  show ?thesis
    unfolding unique_keys_def
  proof (intro allI impI)
    fix i j
    assume "i < length (es[k := e])" "j < length (es[k := e])"
      and "valid (es[k := e] ! i) \<and> valid (es[k := e] ! j) \<and>
           disk_num (es[k := e] ! i) = disk_num (es[k := e] ! j) \<and>
           block_num (es[k := e] ! i) = block_num (es[k := e] ! j)"
    then have "i < length es" "j < length es"
      and "valid (es ! i) \<and> valid (es ! j) \<and> disk_num (es ! i) = disk_num (es ! j) \<and>
           block_num (es ! i) = block_num (es ! j)"
      using same by simp_all
    with assms(1) show "i = j"
      unfolding unique_keys_def by blast
  qed
qed

lemma cache_create_inv:
  assumes "cache_inv s"
  shows "cache_inv (snd (cache_create mem n s))"
  using assms
  by (auto simp: cache_create_def cache_inv_def unique_keys_def split: option.splits)

lemma cache_destroy_inv:
  assumes "cache_inv s"
  shows "cache_inv (snd (cache_destroy s))"
  using assms
  by (auto simp: cache_destroy_def cache_inv_def split: option.splits)

lemma cache_lookup_inv:
  assumes "cache_inv s"
  shows "cache_inv (snd (snd (cache_lookup d b buf s)))"
proof (cases "cache_arr s")
  case None
  with assms show ?thesis by (simp add: cache_lookup_def)
next
  case (Some es)
  have n: "nat (cache_size s) = length es"
    using assms Some by (auto simp: cache_inv_def)
  show ?thesis
  proof (cases "find_cache_entry es (cache_size s) d b = - 1")
    case True
    with assms Some show ?thesis
      by (auto simp: cache_lookup_def cache_inv_def Let_def split: option.splits)
  next
    case False
    from find_cache_entry_hit [OF False] obtain k where k: "k < length es"
      "find_cache_entry es (cache_size s) d b = int k" "valid (es ! k)"
      by (auto simp: n)
    have "unique_keys (es[k := (es ! k)\<lparr>clock_accesses := clock s + 1\<rparr>])"
      using assms Some k by (intro unique_keys_restamp) (auto simp: cache_inv_def)
    with assms Some k show ?thesis
      by (auto simp: cache_lookup_def cache_inv_def Let_def nth_list_update split: option.splits)
  qed
qed

lemma cache_update_inv:
  assumes "cache_inv s"
  shows "cache_inv (cache_update d b buf s)"
proof (cases "cache_arr s")
  case None
  with assms show ?thesis by (simp add: cache_update_def)
next
  case (Some es)
  have n: "nat (cache_size s) = length es"
    using assms Some by (auto simp: cache_inv_def)
  show ?thesis
  proof (cases "find_cache_entry es (cache_size s) d b = - 1")
    case True
    with assms Some show ?thesis
      by (auto simp: cache_update_def cache_inv_def Let_def split: option.splits)
  next
    case False
    from find_cache_entry_hit [OF False] obtain k where k: "k < length es"
      "find_cache_entry es (cache_size s) d b = int k" "valid (es ! k)"
      by (auto simp: n)
    have "unique_keys (es[k := (es ! k)\<lparr>block := blk, clock_accesses := clock s + 1\<rparr>])" for blk
      using assms Some k by (intro unique_keys_restamp) (auto simp: cache_inv_def)
    with assms Some k show ?thesis
      by (auto simp: cache_update_def cache_inv_def Let_def nth_list_update split: option.splits)
  qed
qed

lemma cache_insert_inv:
  assumes "cache_inv s"
  shows "cache_inv (snd (cache_insert d b buf s))"
proof (cases "cache_arr s")
  case None
  with assms show ?thesis by (simp add: cache_insert_def)
next
  case (Some es)
  have n: "nat (cache_size s) = length es"
    using assms Some by (auto simp: cache_inv_def)
  define index0 where "index0 = find_invalid_entry es (cache_size s)"
  define index where "index = (if index0 = - 1 then find_mru_entry es (cache_size s) else index0)"
  show ?thesis
  proof (cases "buf = None \<or> \<not> cache_enabled s \<or> d < 0 \<or> b < 0 \<or>
                find_cache_entry es (cache_size s) d b \<noteq> - 1 \<or> index = - 1")
    case True
    with assms Some show ?thesis
      by (auto simp: cache_insert_def Let_def index_def index0_def split: option.splits)
  next
    case False
    then obtain src where src: "buf = Some src" by auto
    from False have miss: "\<forall>i<length es. \<not> (valid (es ! i) \<and> disk_num (es ! i) = d \<and> block_num (es ! i) = b)"
      using find_cache_entry_miss [of es "cache_size s" d b] by (simp add: n)
    have "\<exists>k<length es. index = int k"
      using False find_invalid_entry_some [of es "cache_size s"]
        find_mru_entry_range [of es "cache_size s"]
      by (auto simp: index_def index0_def n split: if_splits)
    then obtain k where k: "k < length es" "index = int k" by blast
    have uk: "unique_keys (es[k := (es ! k)\<lparr>valid := True, disk_num := d, block_num := b,
                 block := take 256 src, clock_accesses := clock s + 1\<rparr>])"
      using assms Some k miss by (intro unique_keys_insert [where d = d and b = b]) (auto simp: cache_inv_def)
    have res: "cache_insert d b buf s =
       (1, s\<lparr>clock := clock s + 1,
             cache_arr := Some (es[k := (es ! k)\<lparr>valid := True, disk_num := d, block_num := b,
                 block := take 256 src, clock_accesses := clock s + 1\<rparr>])\<rparr>)"
      using False Some src k
      by (simp add: cache_insert_def Let_def index_def [symmetric] index0_def [symmetric])
    show ?thesis
      using assms Some k uk unfolding res
      by (auto simp: cache_inv_def nth_list_update)
  qed
qed

lemma resize_array:
  assumes "cache_arr s = Some es" "int (length es) = cache_size s" "0 < cache_size s"
    "2 \<le> n" "n \<le> 4096"
  shows "cache_resize (Some g) n s =
           (1, s\<lparr>cache_arr := Some (take (nat n) es @
                                     map (\<lambda>i. (g i)\<lparr>valid := False\<rparr>) [length es ..< nat n]),
                 cache_size := n\<rparr>)"
proof -
  let ?fresh = "map (\<lambda>i. (g i)\<lparr>valid := False\<rparr>) [0 ..< nat n]"
  let ?k = "nat (if n < cache_size s then n else cache_size s)"
  have k: "?k = min (nat n) (length es)"
    using assms by auto
  have "fold (\<lambda>i nc. nc[i := es ! i]) [0 ..< ?k] ?fresh = take ?k es @ drop ?k ?fresh"
    by (rule copy_loop) (auto simp: k)
  also have "take ?k es = take (nat n) es"
    by (simp add: k min_def)
  also have "drop ?k ?fresh = map (\<lambda>i. (g i)\<lparr>valid := False\<rparr>) [length es ..< nat n]"
    by (auto simp: k min_def drop_map)
  finally show ?thesis
    using assms by (simp add: cache_resize_def cache_enabled_def Let_def)
qed

lemma resized_nth:
  assumes "i < n"
  shows "(take n es @ map (\<lambda>i. (g i)\<lparr>valid := False\<rparr>) [length es ..< n]) ! i =
           (if i < length es then es ! i else (g i)\<lparr>valid := False\<rparr>)"
  using assms by (auto simp: nth_append)

lemma resized_length:
  "length (take n es @ map (\<lambda>i. (g i)\<lparr>valid := False\<rparr>) [length es ..< n]) = n"
  by auto

lemma unique_keys_resized:
  assumes "unique_keys es"
  shows "unique_keys (take n es @ map (\<lambda>i. (g i)\<lparr>valid := False\<rparr>) [length es ..< n])"
  unfolding unique_keys_def
proof (intro allI impI)
  let ?new = "take n es @ map (\<lambda>i. (g i)\<lparr>valid := False\<rparr>) [length es ..< n]"
  fix i j
  assume ij: "i < length ?new" "j < length ?new"
    and eq: "valid (?new ! i) \<and> valid (?new ! j) \<and> disk_num (?new ! i) = disk_num (?new ! j) \<and>
             block_num (?new ! i) = block_num (?new ! j)"
  have i: "i < n" and j: "j < n"
    using ij by (simp_all only: resized_length)
  have "i < length es"
    using eq resized_nth [OF i, of es g] by (cases "i < length es") simp_all
  moreover have "j < length es"
    using eq resized_nth [OF j, of es g] by (cases "j < length es") simp_all
  ultimately have "valid (es ! i) \<and> valid (es ! j) \<and> disk_num (es ! i) = disk_num (es ! j) \<and>
             block_num (es ! i) = block_num (es ! j)"
    using eq resized_nth [OF i, of es g] resized_nth [OF j, of es g] by simp
  with assms \<open>i < length es\<close> \<open>j < length es\<close> show "i = j"
    unfolding unique_keys_def by blast
qed

lemma cache_resize_inv:
  assumes "cache_inv s"
  shows "cache_inv (snd (cache_resize mem n s))"
proof (cases "n < 2 \<or> n > 4096 \<or> \<not> cache_enabled s \<or> mem = None")
  case True
  with assms cache_create_inv [OF assms, of mem n] show ?thesis
    by (auto simp: cache_resize_def)
next
  case False
  then obtain g es where g: "mem = Some g" and es: "cache_arr s = Some es"
    and n: "2 \<le> n" "n \<le> 4096" and pos: "0 < cache_size s"
    by (auto simp: cache_enabled_def)
  have len: "int (length es) = cache_size s"
    using assms es by (simp add: cache_inv_def)
  let ?new = "take (nat n) es @ map (\<lambda>i. (g i)\<lparr>valid := False\<rparr>) [length es ..< nat n]"
  have res: "cache_resize mem n s = (1, s\<lparr>cache_arr := Some ?new, cache_size := n\<rparr>)"
    unfolding g by (rule resize_array [OF es len pos n])
  have uk: "unique_keys ?new"
    using assms es by (intro unique_keys_resized) (simp add: cache_inv_def)
  have ticks: "1 \<le> clock_accesses (?new ! i)" if "i < length ?new" "valid (?new ! i)" for i
  proof -
    have i: "i < nat n" using that(1) by (simp only: resized_length)
    have "i < length es"
      using that(2) resized_nth [OF i, of es g] by (cases "i < length es") simp_all
    then show ?thesis
      using assms es that(2) resized_nth [OF i, of es g] by (simp add: cache_inv_def)
  qed
  have "length ?new = nat n" by (rule resized_length)
  with assms es n uk ticks show ?thesis
    unfolding res by (simp add: cache_inv_def)
qed

lemma reachable_cache_inv:
  assumes "reachable s"
  shows "cache_inv s"
  using assms
proof (induction rule: reachable.induct)
  case r_init
  show ?case by (simp add: cache_inv_def init_cache_state_def)
qed (simp_all add: cache_create_inv cache_destroy_inv cache_lookup_inv cache_update_inv
       cache_insert_inv cache_resize_inv)

lemma warm_cache_eq:
  "warm_cache =
     \<lparr>cache_arr = Some
        [\<lparr>valid = True, disk_num = 0, block_num = 0, block = [1], clock_accesses = 1\<rparr>,
         \<lparr>valid = True, disk_num = 0, block_num = 1, block = [2], clock_accesses = 2\<rparr>],
      cache_size = 2, clock = 2, num_queries = 0, num_hits = 0\<rparr>"
  by (simp add: warm_cache_def cache_insert_def cache_create_def init_cache_state_def
        cache_enabled_def find_cache_entry_def find_invalid_entry_def junk_mem_def Let_def
        upt_rec [of 0] upt_rec [of 1] upt_rec [of 2] numeral_2_eq_2)

lemma reachable_warm_cache: "reachable warm_cache"
proof -
  let ?s1 = "snd (cache_create (Some junk_mem) 2 init_cache_state)"
  let ?s2 = "snd (cache_insert 0 0 (Some [1]) ?s1)"
  have r1: "reachable ?s1"
    by (rule r_create [OF r_init])
  have n1: "no_overflow ?s1"
    by (simp add: no_overflow_def INT_MAX_def cache_create_def init_cache_state_def)
  have r2: "reachable ?s2"
    by (rule r_insert [OF r1 n1])
  have n2: "no_overflow ?s2"
    by (simp add: no_overflow_def INT_MAX_def cache_insert_def cache_create_def init_cache_state_def
        cache_enabled_def find_cache_entry_def find_invalid_entry_def junk_mem_def Let_def
        upt_rec [of 0] upt_rec [of 1] upt_rec [of 2] numeral_2_eq_2)
  show ?thesis
    unfolding warm_cache_def by (rule r_insert [OF r2 n2])
qed


lemma reachable_torn_down: "reachable torn_down"
proof -
  have "no_overflow warm_cache"
    by (simp add: warm_cache_eq no_overflow_def INT_MAX_def)
  then have "reachable (snd (snd (cache_lookup 0 1 (Some []) warm_cache)))"
    by (rule r_lookup [OF reachable_warm_cache])
  then show ?thesis
    unfolding torn_down_def by (rule r_destroy)
qed

lemma lookup_hit_clock:
  assumes "fst (cache_lookup d b buf s) = 1"
  shows "clock (snd (snd (cache_lookup d b buf s))) = clock s + 1"
  using assms
  by (auto simp: cache_lookup_def Let_def split: option.splits if_splits)

lemma insert_clock:
  assumes "fst (cache_insert d b buf s) = 1"
  shows "clock (snd (cache_insert d b buf s)) = clock s + 1"
  using assms
  by (auto simp: cache_insert_def Let_def split: option.splits if_splits)

lemma update_existing_clock:
  assumes "cache_arr s = Some es" "int (length es) = cache_size s" "es \<noteq> []"
    and "0 \<le> d" "0 \<le> b"
    and "\<exists>e\<in>set es. valid e \<and> disk_num e = d \<and> block_num e = b"
  shows "clock (cache_update d b (Some src) s) = clock s + 1"
proof -
  have n: "nat (cache_size s) = length es"
    using assms(2) by simp
  have en: "cache_enabled s"
    using assms(1,2,3) by (cases es) (auto simp: cache_enabled_def)
  have "find_cache_entry es (cache_size s) d b \<noteq> - 1"
    using assms(6) by (auto simp: find_cache_entry_miss n in_set_conv_nth)
  with assms(1,4,5) en show ?thesis
    by (simp add: cache_update_def Let_def)
qed

section \<open>Facts about the argument checks of the engine\<close>

lemma max_addr: "JBOD_NUM_DISKS * JBOD_DISK_SIZE = (1048576 :: 32 word)"
  by (simp add: JBOD_NUM_DISKS_def JBOD_DISK_SIZE_def)

lemma range_check:
  fixes start_addr len :: "32 word"
  shows "(start_addr + len > 1048576 \<or> start_addr + len < start_addr) \<longleftrightarrow>
         out_of_range start_addr len"
proof -
  have u: "unat (start_addr + len) = (unat start_addr + unat len) mod 4294967296"
    by (simp add: unat_word_ariths)
  have b: "unat start_addr < 4294967296" "unat len < 4294967296"
    using unsigned_less [of start_addr, where 'a = nat] unsigned_less [of len, where 'a = nat] by simp_all
  show ?thesis
  proof (cases "unat start_addr + unat len < 4294967296")
    case True
    then have "unat (start_addr + len) = unat start_addr + unat len"
      using u by simp
    then show ?thesis
      by (simp add: out_of_range_def word_less_nat_alt)
  next
    case False
    then have "unat (start_addr + len) = unat start_addr + unat len - 4294967296"
      using u b by (simp add: mod_if)
    with False b have "unat (start_addr + len) < unat start_addr"
      and "1048576 < unat start_addr + unat len"
      by linarith+
    then show ?thesis
      by (simp add: out_of_range_def word_less_nat_alt)
  qed
qed

lemma len_check:
  fixes len :: "32 word"
  shows "len > 1024 \<longleftrightarrow> unat len > 1024" and "len > 0 \<longleftrightarrow> unat len > 0" and "len = 0 \<longleftrightarrow> unat len = 0"
  by (simp_all add: word_less_nat_alt unat_eq_0)

lemma segment_unat:
  assumes a: "unat start_addr + unat bytes_done < 16 * 65536" and le: "bytes_done \<le> len"
    and seg: "segment start_addr len bytes_done = (dn, bn, off, n)"
  shows "unat dn = (unat start_addr + unat bytes_done) div 65536"
    and "unat bn = (unat start_addr + unat bytes_done) mod 65536 div 256"
    and "unat off = (unat start_addr + unat bytes_done) mod 65536 mod 256"
    and "unat n = min (unat len - unat bytes_done)
                      (256 - (unat start_addr + unat bytes_done) mod 65536 mod 256)"
proof -
  let ?a = "unat start_addr + unat bytes_done"
  have ua: "unat (start_addr + bytes_done) = ?a"
    using a by (simp add: unat_add_lem [THEN iffD1])
  have dn: "dn = (start_addr + bytes_done) div 65536"
    and bn: "bn = (start_addr + bytes_done) mod 65536 div 256"
    and off: "off = (start_addr + bytes_done) mod 65536 mod 256"
    and n: "n = (if len - bytes_done > 256 - off then 256 - off else len - bytes_done)"
    using seg by (auto simp: segment_def Let_def JBOD_DISK_SIZE_def JBOD_BLOCK_SIZE_def)
  show 1: "unat dn = ?a div 65536"
    by (simp add: dn unat_div ua)
  show 2: "unat bn = ?a mod 65536 div 256"
    by (simp add: bn unat_div unat_mod ua)
  show 3: "unat off = ?a mod 65536 mod 256"
    by (simp add: off unat_mod ua)
  have "unat off < 256"
    by (simp add: 3)
  then have "off \<le> 256"
    by (simp add: word_le_nat_alt)
  then have left: "unat (256 - off) = 256 - unat off"
    by (simp add: unat_sub)
  have rem: "unat (len - bytes_done) = unat len - unat bytes_done"
    using le by (simp add: unat_sub)
  show "unat n = min (unat len - unat bytes_done) (256 - ?a mod 65536 mod 256)"
    unfolding 3 [symmetric]
    by (simp add: n word_less_nat_alt left rem min_def)
qed

section \<open>Facts about operation words\<close>

lemma bit_bound:
  fixes w :: "'a::len word"
  assumes "w < 2 ^ k" "bit w n"
  shows "n < k"
proof -
  have "w AND mask k = w"
    using assms(1) by (rule less_mask_eq)
  then have "bit (w AND mask k) n"
    using assms(2) by simp
  then show ?thesis
    by (simp add: bit_simps)
qed

lemma decode_cmd:
  "(ucast (drop_bit 12 (encode_op cmd dsk blk)) :: byte) = cmd"
  unfolding encode_op_def
  by (rule bit_word_eqI) (auto simp: bit_simps dest: bit_imp_le_length)

lemma decode_disk:
  assumes "dsk < 16"
  shows "encode_op cmd dsk blk AND 0x0F = ucast dsk"
proof -
  have b: "n < 4" if "bit dsk n" for n
    using bit_bound [of dsk 4 n] assms that by simp
  have m: "(0x0F :: 32 word) = mask 4" by (simp add: mask_eq_decr_exp)
  show ?thesis
    unfolding encode_op_def m
    by (rule bit_word_eqI) (auto simp: bit_simps dest: b bit_imp_le_length)
qed

lemma decode_block:
  assumes "dsk < 16"
  shows "drop_bit 4 (encode_op cmd dsk blk) AND 0xFF = ucast blk"
proof -
  have b: "n < 4" if "bit dsk n" for n
    using bit_bound [of dsk 4 n] assms that by simp
  have m: "(0xFF :: 32 word) = mask 8" by (simp add: mask_eq_decr_exp)
  show ?thesis
    unfolding encode_op_def m
    by (rule bit_word_eqI) (auto simp: bit_simps dest: b bit_imp_le_length)
qed

lemma ucast_small:
  fixes w :: "32 word"
  assumes "w < 256"
  shows "unat (ucast (ucast w :: byte) :: 32 word) = unat w" and "unat (ucast w :: byte) = unat w"
proof -
  have b: "n < 8" if "bit w n" for n
    using bit_bound [of w 8 n] assms that by simp
  have rt: "(ucast (ucast w :: byte) :: 32 word) = w"
    by (rule bit_word_eqI) (auto simp: bit_simps dest: b)
  then show "unat (ucast (ucast w :: byte) :: 32 word) = unat w" by simp
  have "unat w < 2 ^ 8"
    using assms by (simp add: word_less_nat_alt)
  then have "take_bit 8 (unat w) = unat w"
    by (rule take_bit_nat_eq_self)
  then show "unat (ucast w :: byte) = unat w"
    by (simp add: unsigned_ucast_eq)
qed

lemma ucast_small_less:
  fixes w :: "32 word"
  assumes "w < 16"
  shows "(ucast w :: byte) < 16"
proof -
  have "w < 256" using assms by unat_arith
  then have "unat (ucast w :: byte) = unat w" by (rule ucast_small)
  then show ?thesis using assms by (simp add: word_less_nat_alt)
qed

text \<open>
  \<open>mdadm_read\<close> masks the disk and block number before encoding them and \<open>mdadm_write\<close>
  does not; inside the volume both send the same operation words.
\<close>

lemma seek_words_masked:
  fixes dn bn :: "32 word"
  assumes "dn < 16" "bn < 256"
  shows "encode_op JBOD_SEEK_TO_DISK (ucast (dn AND 0x0F)) 0 =
           encode_op JBOD_SEEK_TO_DISK (ucast dn) 0"
    and "encode_op JBOD_SEEK_TO_BLOCK 0 (ucast (bn AND 0xFF)) =
           encode_op JBOD_SEEK_TO_BLOCK 0 (ucast bn)"
proof -
  have "dn AND 0x0F = dn"
    using less_mask_eq [of dn 4] assms(1) by (simp add: mask_eq_decr_exp)
  then show "encode_op JBOD_SEEK_TO_DISK (ucast (dn AND 0x0F)) 0 =
               encode_op JBOD_SEEK_TO_DISK (ucast dn) 0"
    by simp
  have "bn AND 0xFF = bn"
    using less_mask_eq [of bn 8] assms(2) by (simp add: mask_eq_decr_exp)
  then show "encode_op JBOD_SEEK_TO_BLOCK 0 (ucast (bn AND 0xFF)) =
               encode_op JBOD_SEEK_TO_BLOCK 0 (ucast bn)"
    by simp
qed

section \<open>Facts about the disk array and the block merge\<close>

declare read_loop.simps [simp del] write_loop.simps [simp del]

lemma read_loop_done:
  assumes "\<not> bytes_read < read_len"
  shows "read_loop jop start_addr read_len bytes_read read_buf d = (uint bytes_read, read_buf, d)"
  using assms by (simp add: read_loop.simps)

lemma write_loop_done:
  assumes "\<not> bytes_written < write_len"
  shows "write_loop jop start_addr write_len bytes_written write_buf d = (uint bytes_written, d)"
  using assms by (simp add: write_loop.simps)

lemma dev_seek_disk:
  fixes dn :: "32 word"
  assumes "dev_mounted d" "dn < 16"
  shows "jbod_operation (encode_op JBOD_SEEK_TO_DISK (ucast dn) 0) None d =
           (0, None, d\<lparr>issued := issued d @ [encode_op JBOD_SEEK_TO_DISK (ucast dn) 0],
                       cur_disk := unat dn\<rparr>)"
proof -
  have small: "(ucast dn :: byte) < 16"
    using assms(2) by (rule ucast_small_less)
  have "dn < 256" using assms(2) by unat_arith
  then have u: "unat (ucast (ucast dn :: byte) :: 32 word) = unat dn"
    by (rule ucast_small)
  show ?thesis
    using assms(1) u
    by (simp add: jbod_operation_def Let_def decode_cmd decode_disk [OF small]
        JBOD_SEEK_TO_DISK_def JBOD_MOUNT_def JBOD_UNMOUNT_def)
qed

lemma dev_seek_block:
  fixes bn :: "32 word"
  assumes "dev_mounted d" "bn < 256"
  shows "jbod_operation (encode_op JBOD_SEEK_TO_BLOCK 0 (ucast bn)) None d =
           (0, None, d\<lparr>issued := issued d @ [encode_op JBOD_SEEK_TO_BLOCK 0 (ucast bn)],
                       cur_block := unat bn\<rparr>)"
proof -
  have u: "unat (ucast (ucast bn :: byte) :: 32 word) = unat bn"
    using assms(2) by (rule ucast_small)
  have z: "(0 :: byte) < 16" by simp
  show ?thesis
    using assms(1) u
    by (simp add: jbod_operation_def Let_def decode_cmd decode_block [OF z]
        JBOD_SEEK_TO_BLOCK_def JBOD_SEEK_TO_DISK_def JBOD_MOUNT_def JBOD_UNMOUNT_def)
qed

lemma dev_read_block:
  assumes "dev_mounted d"
  shows "jbod_operation (encode_op JBOD_READ_BLOCK 0 0) (Some b) d =
           (0, Some (store d (cur_disk d) (cur_block d)),
            d\<lparr>issued := issued d @ [encode_op JBOD_READ_BLOCK 0 0]\<rparr>)"
  using assms
  by (simp add: jbod_operation_def Let_def decode_cmd
      JBOD_READ_BLOCK_def JBOD_SEEK_TO_BLOCK_def JBOD_SEEK_TO_DISK_def JBOD_MOUNT_def
      JBOD_UNMOUNT_def)

lemma dev_write_block:
  assumes "dev_mounted d"
  shows "jbod_operation (encode_op JBOD_WRITE_BLOCK 0 0) (Some b) d =
           (0, Some b,
            d\<lparr>issued := issued d @ [encode_op JBOD_WRITE_BLOCK 0 0],
              store := (store d)(cur_disk d := (store d (cur_disk d))(cur_block d := take 256 b))\<rparr>)"
  using assms
  by (simp add: jbod_operation_def Let_def decode_cmd
      JBOD_WRITE_BLOCK_def JBOD_READ_BLOCK_def JBOD_SEEK_TO_BLOCK_def JBOD_SEEK_TO_DISK_def
      JBOD_MOUNT_def JBOD_UNMOUNT_def)

text \<open>The merged block: the bytes outside the written range are the old ones.\<close>

lemma memcpy_length:
  assumes "off + n \<le> length blk" "src_off + n \<le> length src"
  shows "length (memcpy blk off src src_off n) = length blk"
  using assms by (simp add: memcpy_def)

lemma memcpy_nth:
  assumes "off + n \<le> length blk" "src_off + n \<le> length src" "i < length blk"
  shows "memcpy blk off src src_off n ! i =
           (if off \<le> i \<and> i < off + n then src ! (src_off + (i - off)) else blk ! i)"
  using assms by (auto simp: memcpy_def nth_append)

lemma segment_bounds:
  assumes pos: "bytes_done < len"
    and rng: "unat start_addr + unat len \<le> 16 * 65536"
    and seg: "segment start_addr len bytes_done = (dn, bn, off, n)"
  shows "dn < 16" and "bn < 256" and "unat off + unat n \<le> 256" and "0 < unat n"
    and "unat bytes_done + unat n \<le> unat len"
    and "unat (bytes_done + n) = unat bytes_done + unat n"
proof -
  have lt: "unat bytes_done < unat len"
    using pos by (simp add: word_less_nat_alt)
  then have a: "unat start_addr + unat bytes_done < 16 * 65536"
    using rng by simp
  have le: "bytes_done \<le> len"
    using pos by simp
  note u = segment_unat [OF a le seg]
  show "dn < 16"
    using u(1) a by (simp add: word_less_nat_alt)
  show "bn < 256"
    using u(2) by (simp add: word_less_nat_alt)
  have o: "unat off < 256"
    using u(3) by simp
  have m: "unat n = min (unat len - unat bytes_done) (256 - unat off)"
    using u(4) unfolding u(3) [symmetric] .
  show 3: "unat off + unat n \<le> 256"
    using o m by linarith
  show 4: "0 < unat n"
    using o m lt by linarith
  show 5: "unat bytes_done + unat n \<le> unat len"
    using m lt by linarith
  have "unat len < 2 ^ 32"
    using unsigned_less [of len, where 'a = nat] by simp
  with 5 have "unat bytes_done + unat n < 2 ^ LENGTH(32)"
    by simp
  then show "unat (bytes_done + n) = unat bytes_done + unat n"
    by (simp only: unat_add_lem [THEN iffD1])
qed

section \<open>Facts about the two loops\<close>

lemma segment_step_le:
  assumes "bytes_done < len" "segment start_addr len bytes_done = (dn, bn, off, n)"
  shows "bytes_done + n \<le> len"
    and "unat (len - (bytes_done + n)) < unat (len - bytes_done)"
proof -
  have nz: "256 - a mod 256 \<noteq> 0" for a :: "32 word"
  proof -
    have "a mod 256 < 256" by (rule word_mod_less_divisor) simp
    then have "unat (a mod 256) < 256" by (simp add: word_less_nat_alt)
    moreover have "a mod 256 \<le> 256" using \<open>a mod 256 < 256\<close> by simp
    ultimately have "unat (256 - a mod 256) \<noteq> 0"
      by (simp add: unat_sub)
    then show ?thesis by (simp add: unat_eq_0)
  qed
  have lt: "unat bytes_done < unat len"
    using assms(1) by (simp add: word_less_nat_alt)
  have rem: "unat (len - bytes_done) = unat len - unat bytes_done"
    using assms(1) by (simp add: unat_sub)
  then have pos: "len - bytes_done \<noteq> 0"
    using lt by (simp add: unat_eq_0 [symmetric])
  have n: "n \<le> len - bytes_done" "n \<noteq> 0"
    using assms(2) nz pos
    by (auto simp: segment_def Let_def JBOD_BLOCK_SIZE_def JBOD_DISK_SIZE_def split: if_splits)
  have un: "unat n \<le> unat len - unat bytes_done" "0 < unat n"
    using n rem by (simp_all add: word_le_nat_alt unat_gt_0)
  have "unat len < 2 ^ LENGTH(32)"
    by (rule unsigned_less)
  with un lt have "unat bytes_done + unat n < 2 ^ LENGTH(32)"
    by linarith
  then have sum: "unat (bytes_done + n) = unat bytes_done + unat n"
    by (simp only: unat_add_lem [THEN iffD1])
  show le: "bytes_done + n \<le> len"
    using un lt by (simp add: word_le_nat_alt sum)
  have "unat (len - (bytes_done + n)) = unat len - (unat bytes_done + unat n)"
    using le by (simp add: unat_sub sum)
  with un lt rem show "unat (len - (bytes_done + n)) < unat (len - bytes_done)"
    by linarith
qed


lemma read_loop_result:
  assumes "bytes_read \<le> read_len"
  shows "(fst (read_loop jop start_addr read_len bytes_read read_buf d) = - 4 \<or>
          fst (read_loop jop start_addr read_len bytes_read read_buf d) = uint read_len) \<and>
         ((\<forall>op b s. fst (jop op b s) = 0) \<longrightarrow>
          fst (read_loop jop start_addr read_len bytes_read read_buf d) = uint read_len)"
  using assms
proof (induction "unat (read_len - bytes_read)" arbitrary: bytes_read read_buf d rule: less_induct)
  case less
  show ?case
  proof (cases "bytes_read < read_len")
    case False
    with less.prems have "bytes_read = read_len" by simp
    then show ?thesis by (simp add: read_loop_done)
  next
    case True
    obtain dn bn off n where seg: "segment start_addr read_len bytes_read = (dn, bn, off, n)"
      by (cases "segment start_addr read_len bytes_read") auto
    note st = segment_step_le [OF True seg]
    obtain r1 b1 d1 where o1:
      "jop (encode_op JBOD_SEEK_TO_DISK (ucast (dn AND 0x0F)) 0) None d = (r1, b1, d1)"
      by (cases "jop (encode_op JBOD_SEEK_TO_DISK (ucast (dn AND 0x0F)) 0) None d") auto
    obtain r2 b2 d2 where o2:
      "jop (encode_op JBOD_SEEK_TO_BLOCK 0 (ucast (bn AND 0xFF))) None d1 = (r2, b2, d2)"
      by (cases "jop (encode_op JBOD_SEEK_TO_BLOCK 0 (ucast (bn AND 0xFF))) None d1") auto
    obtain r3 b3 d3 where o3:
      "jop (encode_op JBOD_READ_BLOCK 0 0) (Some zero_block) d2 = (r3, b3, d3)"
      by (cases "jop (encode_op JBOD_READ_BLOCK 0 0) (Some zero_block) d2") auto
    let ?buf' = "map_option (\<lambda>out. memcpy out (unat bytes_read) (block_after zero_block b3)
                                     (unat off) (unat n)) read_buf"
    have unfold: "read_loop jop start_addr read_len bytes_read read_buf d =
        (if r1 \<noteq> 0 then (- 4, read_buf, d1)
         else if r2 \<noteq> 0 then (- 4, read_buf, d2)
         else if r3 \<noteq> 0 then (- 4, read_buf, d3)
         else read_loop jop start_addr read_len (bytes_read + n) ?buf' d3)"
      using True seg o1 o2 o3 by (subst read_loop.simps) simp
    have ok: "r1 = 0 \<and> r2 = 0 \<and> r3 = 0" if "\<forall>op b s. fst (jop op b s) = 0"
      using that [rule_format, of "encode_op JBOD_SEEK_TO_DISK (ucast (dn AND 0x0F)) 0" None d]
        that [rule_format, of "encode_op JBOD_SEEK_TO_BLOCK 0 (ucast (bn AND 0xFF))" None d1]
        that [rule_format, of "encode_op JBOD_READ_BLOCK 0 0" "Some zero_block" d2]
        o1 o2 o3 by simp
    note ih = less.hyps [OF st(2) st(1), of ?buf' d3]
    show ?thesis
      unfolding unfold using ih ok by auto
  qed
qed

lemma write_loop_result:
  assumes "bytes_written \<le> write_len"
  shows "(fst (write_loop jop start_addr write_len bytes_written write_buf d) = - 4 \<or>
          fst (write_loop jop start_addr write_len bytes_written write_buf d) = uint write_len) \<and>
         ((\<forall>op b s. fst (jop op b s) = 0) \<longrightarrow>
          fst (write_loop jop start_addr write_len bytes_written write_buf d) = uint write_len)"
  using assms
proof (induction "unat (write_len - bytes_written)" arbitrary: bytes_written d rule: less_induct)
  case less
  show ?case
  proof (cases "bytes_written < write_len")
    case False
    with less.prems have "bytes_written = write_len" by simp
    then show ?thesis by (simp add: write_loop_done)
  next
    case True
    obtain dn bn off n where seg: "segment start_addr write_len bytes_written = (dn, bn, off, n)"
      by (cases "segment start_addr write_len bytes_written") auto
    note st = segment_step_le [OF True seg]
    let ?o1 = "encode_op JBOD_SEEK_TO_DISK (ucast dn) 0"
    let ?o2 = "encode_op JBOD_SEEK_TO_BLOCK 0 (ucast bn)"
    let ?o3 = "encode_op JBOD_READ_BLOCK 0 0"
    let ?o4 = "encode_op JBOD_WRITE_BLOCK 0 0"
    obtain r1 b1 d1 where o1: "jop ?o1 None d = (r1, b1, d1)"
      by (cases "jop ?o1 None d") auto
    obtain r2 b2 d2 where o2: "jop ?o2 None d1 = (r2, b2, d2)"
      by (cases "jop ?o2 None d1") auto
    obtain r3 b3 d3 where o3:
      "(if n < JBOD_BLOCK_SIZE \<or> off \<noteq> 0 then jop ?o3 (Some zero_block) d2
        else (0, Some zero_block, d2)) = (r3, b3, d3)"
      by (cases "if n < JBOD_BLOCK_SIZE \<or> off \<noteq> 0 then jop ?o3 (Some zero_block) d2
                 else (0, Some zero_block, d2)") auto
    let ?blk = "memcpy (block_after zero_block b3) (unat off) write_buf (unat bytes_written)
                  (unat n)"
    obtain r4 b4 d4 where o4: "jop ?o4 (Some ?blk) d3 = (r4, b4, d4)"
      by (cases "jop ?o4 (Some ?blk) d3") auto
    have unfold: "write_loop jop start_addr write_len bytes_written write_buf d =
        (if r1 \<noteq> 0 then (- 4, d1)
         else if r2 \<noteq> 0 then (- 4, d2)
         else if r3 \<noteq> 0 then (- 4, d3)
         else if r4 \<noteq> 0 then (- 4, d4)
         else write_loop jop start_addr write_len (bytes_written + n) write_buf d4)"
      using True seg o1 o2 o3 o4 by (subst write_loop.simps) simp
    have ok: "r1 = 0 \<and> r2 = 0 \<and> r3 = 0 \<and> r4 = 0" if "\<forall>op b s. fst (jop op b s) = 0"
      using that [rule_format, of ?o1 None d] that [rule_format, of ?o2 None d1]
        that [rule_format, of ?o3 "Some zero_block" d2]
        that [rule_format, of ?o4 "Some ?blk" d3]
        o1 o2 o3 o4 by (auto split: if_splits)
    note ih = less.hyps [OF st(2) st(1), of d4]
    show ?thesis
      unfolding unfold using ih ok by auto
  qed
qed

section \<open>One iteration of the write loop\<close>

lemma write_loop_step:
  assumes dev: "dev_mounted d"
    and wf: "length (store d (unat dn) (unat bn)) = 256"
    and pos: "bytes_written < write_len"
    and rng: "unat start_addr + unat write_len \<le> 16 * 65536"
    and buf: "unat write_len \<le> length write_buf"
    and seg: "segment start_addr write_len bytes_written = (dn, bn, off, n)"
  shows "\<exists>new.
           write_loop jbod_operation start_addr write_len bytes_written write_buf d =
             write_loop jbod_operation start_addr write_len (bytes_written + n) write_buf
               (d\<lparr>issued := issued d @
                      [encode_op JBOD_SEEK_TO_DISK (ucast dn) 0,
                       encode_op JBOD_SEEK_TO_BLOCK 0 (ucast bn)] @
                      (if n < 256 \<or> off \<noteq> 0 then [encode_op JBOD_READ_BLOCK 0 0] else []) @
                      [encode_op JBOD_WRITE_BLOCK 0 0],
                   cur_disk := unat dn,
                   cur_block := unat bn,
                   store := (store d)(unat dn := (store d (unat dn))(unat bn := new))\<rparr>) \<and>
           length new = 256 \<and>
           (\<forall>i<unat n. new ! (unat off + i) = write_buf ! (unat bytes_written + i)) \<and>
           (\<forall>i<256. i < unat off \<or> unat off + unat n \<le> i \<longrightarrow>
                     new ! i = store d (unat dn) (unat bn) ! i)"
proof -
  note b = segment_bounds [OF pos rng seg]
  let ?old = "store d (unat dn) (unat bn)"
  let ?sd = "encode_op JBOD_SEEK_TO_DISK (ucast dn) 0"
  let ?sb = "encode_op JBOD_SEEK_TO_BLOCK 0 (ucast bn)"
  let ?rd = "encode_op JBOD_READ_BLOCK 0 0"
  let ?wr = "encode_op JBOD_WRITE_BLOCK 0 0"
  let ?d1 = "d\<lparr>issued := issued d @ [?sd], cur_disk := unat dn\<rparr>"
  let ?d2 = "?d1\<lparr>issued := issued ?d1 @ [?sb], cur_block := unat bn\<rparr>"
  have s1: "jbod_operation ?sd None d = (0, None, ?d1)"
    by (rule dev_seek_disk [OF dev b(1)])
  have s2: "jbod_operation ?sb None ?d1 = (0, None, ?d2)"
    by (rule dev_seek_block) (simp_all add: dev b(2))
  have m2: "dev_mounted ?d2" using dev by simp
  have srcb: "unat bytes_written + unat n \<le> length write_buf"
    using b(5) buf by simp
  show ?thesis
  proof (cases "n < 256 \<or> off \<noteq> 0")
    case True
    let ?d3 = "?d2\<lparr>issued := issued ?d2 @ [?rd]\<rparr>"
    let ?new = "memcpy ?old (unat off) write_buf (unat bytes_written) (unat n)"
    have s3: "jbod_operation ?rd (Some zero_block) ?d2 = (0, Some ?old, ?d3)"
      using dev_read_block [OF m2, of zero_block] by simp
    have len: "length ?new = 256"
      using memcpy_length [of "unat off" "unat n" ?old "unat bytes_written" write_buf]
        b(3) wf srcb by simp
    have s4: "jbod_operation ?wr (Some ?new) ?d3 =
                (0, Some ?new,
                 ?d3\<lparr>issued := issued ?d3 @ [?wr],
                      store := (store ?d3)(cur_disk ?d3 :=
                                 (store ?d3 (cur_disk ?d3))(cur_block ?d3 := take 256 ?new))\<rparr>)"
      by (rule dev_write_block) (simp add: dev)
    have step: "write_loop jbod_operation start_addr write_len bytes_written write_buf d =
             write_loop jbod_operation start_addr write_len (bytes_written + n) write_buf
               (d\<lparr>issued := issued d @ [?sd, ?sb] @ [?rd] @ [?wr],
                   cur_disk := unat dn, cur_block := unat bn,
                   store := (store d)(unat dn := (store d (unat dn))(unat bn := ?new))\<rparr>)"
      apply (subst write_loop.simps)
      using True len
      apply (simp add: pos seg dev b(1) b(2) dev_seek_disk dev_seek_block dev_read_block
          dev_write_block JBOD_BLOCK_SIZE_def block_after_def)
      apply (rule arg_cong [where f = "write_loop jbod_operation start_addr write_len
                                         (bytes_written + n) write_buf"])
      apply (rule jbod_dev.equality)
           apply simp_all
      done
    have inside: "\<forall>i<unat n. ?new ! (unat off + i) = write_buf ! (unat bytes_written + i)"
      using memcpy_nth [of "unat off" "unat n" ?old "unat bytes_written" write_buf]
        b(3) wf srcb by simp
    have outside: "\<forall>i<256. i < unat off \<or> unat off + unat n \<le> i \<longrightarrow> ?new ! i = ?old ! i"
      using memcpy_nth [of "unat off" "unat n" ?old "unat bytes_written" write_buf]
        b(3) wf srcb by auto
    from step len inside outside True show ?thesis
      by (intro exI [of _ ?new]) simp
  next
    case False
    then have off0: "off = 0" and n256: "unat n = 256"
      using b(3) by (auto simp: word_less_nat_alt)
    let ?new = "memcpy zero_block (unat off) write_buf (unat bytes_written) (unat n)"
    have len: "length ?new = 256"
      using memcpy_length [of "unat off" "unat n" zero_block "unat bytes_written" write_buf]
        b(3) srcb by (simp add: zero_block_def)
    have s4: "jbod_operation ?wr (Some ?new) ?d2 =
                (0, Some ?new,
                 ?d2\<lparr>issued := issued ?d2 @ [?wr],
                      store := (store ?d2)(cur_disk ?d2 :=
                                 (store ?d2 (cur_disk ?d2))(cur_block ?d2 := take 256 ?new))\<rparr>)"
      by (rule dev_write_block) (simp add: dev)
    have step: "write_loop jbod_operation start_addr write_len bytes_written write_buf d =
             write_loop jbod_operation start_addr write_len (bytes_written + n) write_buf
               (d\<lparr>issued := issued d @ [?sd, ?sb] @ [] @ [?wr],
                   cur_disk := unat dn, cur_block := unat bn,
                   store := (store d)(unat dn := (store d (unat dn))(unat bn := ?new))\<rparr>)"
      apply (subst write_loop.simps)
      using False len
      apply (simp add: pos seg dev b(1) b(2) dev_seek_disk dev_seek_block dev_read_block
          dev_write_block JBOD_BLOCK_SIZE_def block_after_def)
      apply (rule arg_cong [where f = "write_loop jbod_operation start_addr write_len
                                         (bytes_written + n) write_buf"])
      apply (rule jbod_dev.equality)
           apply simp_all
      done
    have inside: "\<forall>i<unat n. ?new ! (unat off + i) = write_buf ! (unat bytes_written + i)"
      using memcpy_nth [of "unat off" "unat n" zero_block "unat bytes_written" write_buf]
        b(3) srcb by (simp add: zero_block_def)
    have outside: "\<forall>i<256. i < unat off \<or> unat off + unat n \<le> i \<longrightarrow> ?new ! i = ?old ! i"
      using off0 n256 by simp
    from step len inside outside False show ?thesis
      by (intro exI [of _ ?new]) simp
  qed
qed

section \<open>Facts about positions in a block\<close>

lemma same_block_iff:
  fixes a A :: nat
  shows "(a div 65536 = A div 65536 \<and> a mod 65536 div 256 = A mod 65536 div 256) \<longleftrightarrow>
         a div 256 = A div 256"
proof -
  have d: "x div 65536 = x div 256 div 256" for x :: nat
    by (simp add: div_mult2_eq [symmetric])
  have m: "x mod 65536 div 256 = x div 256 mod 256" for x :: nat
  proof -
    have "x mod (256 * 256) = 256 * (x div 256 mod 256) + x mod 256"
      by (rule mod_mult2_eq)
    then have "x mod 65536 div 256 = (256 * (x div 256 mod 256) + x mod 256) div 256"
      by simp
    also have "\<dots> = x div 256 mod 256"
      by simp
    finally show ?thesis .
  qed
  show ?thesis
    unfolding d m by (metis div_mult_mod_eq)
qed

lemma offset_mod: "(A :: nat) mod 65536 mod 256 = A mod 256"
  by (simp add: mod_mod_cancel)

lemma in_segment_iff:
  fixes a A n :: nat
  assumes "a div 256 = A div 256"
  shows "(A \<le> a \<and> a < A + n) \<longleftrightarrow> (A mod 256 \<le> a mod 256 \<and> a mod 256 < A mod 256 + n)"
proof -
  have "a = 256 * (A div 256) + a mod 256" "A = 256 * (A div 256) + A mod 256"
    using assms div_mult_mod_eq [of a 256] div_mult_mod_eq [of A 256] by simp_all
  then show ?thesis by linarith
qed

lemma other_block_outside:
  fixes a A n :: nat
  assumes "a div 256 \<noteq> A div 256" "A mod 256 + n \<le> 256"
  shows "\<not> (A \<le> a \<and> a < A + n)"
proof
  assume h: "A \<le> a \<and> a < A + n"
  have A: "A = 256 * (A div 256) + A mod 256"
    by simp
  from h assms(2) have "a < 256 * (A div 256) + 256"
    using A by linarith
  then have "a div 256 \<le> A div 256"
    by (simp add: less_mult_imp_div_less div_le_mono flip: mult_Suc_right)
  moreover from h have "A div 256 \<le> a div 256"
    by (simp add: div_le_mono)
  ultimately show False using assms(1) by simp
qed

lemma in_segment_index:
  fixes a A :: nat
  assumes "a div 256 = A div 256" "A \<le> a"
  shows "a - A = a mod 256 - A mod 256"
proof -
  have "a = 256 * (A div 256) + a mod 256" "A = 256 * (A div 256) + A mod 256"
    using assms div_mult_mod_eq [of a 256] div_mult_mod_eq [of A 256] by simp_all
  then show ?thesis by linarith
qed

section \<open>The effect of a whole write\<close>

text \<open>
  Iterating the step: on the disk array of the spec, the loop of \<open>mdadm_write\<close> ends
  with the length of the call, and afterwards every byte of the volume from the current
  position to the end of the range is the caller's and every other byte is as before.
\<close>

lemma write_loop_volume:
  assumes rng: "unat start_addr + unat write_len \<le> 16 * 65536"
    and buf: "unat write_len \<le> length write_buf"
    and le: "bytes_written \<le> write_len"
    and dev: "dev_mounted d"
    and wf: "\<forall>dk bk. length (store d dk bk) = 256"
  shows "\<exists>d'. write_loop jbod_operation start_addr write_len bytes_written write_buf d
                 = (uint write_len, d') \<and>
              dev_mounted d' \<and> (\<forall>dk bk. length (store d' dk bk) = 256) \<and>
              (\<forall>a. volume_byte d' a =
                     (if unat start_addr + unat bytes_written \<le> a \<and>
                         a < unat start_addr + unat write_len
                      then write_buf ! (a - unat start_addr)
                      else volume_byte d a))"
  using le dev wf
proof (induction "unat (write_len - bytes_written)" arbitrary: bytes_written d rule: less_induct)
  case less
  show ?case
  proof (cases "bytes_written < write_len")
    case False
    with less.prems(1) have eq: "bytes_written = write_len" by simp
    show ?thesis
      using less.prems(2,3) by (auto simp: eq write_loop_done)
  next
    case True
    obtain dn bn off n where seg: "segment start_addr write_len bytes_written = (dn, bn, off, n)"
      by (cases "segment start_addr write_len bytes_written") auto
    note st = segment_step_le [OF True seg]
    note b = segment_bounds [OF True rng seg]
    let ?A = "unat start_addr + unat bytes_written"
    have lt: "unat bytes_written < unat write_len"
      using True by (simp add: word_less_nat_alt)
    have a: "?A < 16 * 65536"
      using rng lt by simp
    note u = segment_unat [OF a less.prems(1) seg]
    have uoff: "unat off = ?A mod 256"
      using u(3) by (simp add: offset_mod)
    have wfb: "length (store d (unat dn) (unat bn)) = 256"
      using less.prems(3) by simp
    from write_loop_step [OF less.prems(2) wfb True rng buf seg]
    obtain new where
      step: "write_loop jbod_operation start_addr write_len bytes_written write_buf d =
             write_loop jbod_operation start_addr write_len (bytes_written + n) write_buf
               (d\<lparr>issued := issued d @
                      [encode_op JBOD_SEEK_TO_DISK (ucast dn) 0,
                       encode_op JBOD_SEEK_TO_BLOCK 0 (ucast bn)] @
                      (if n < 256 \<or> off \<noteq> 0 then [encode_op JBOD_READ_BLOCK 0 0] else []) @
                      [encode_op JBOD_WRITE_BLOCK 0 0],
                   cur_disk := unat dn,
                   cur_block := unat bn,
                   store := (store d)(unat dn := (store d (unat dn))(unat bn := new))\<rparr>)"
      and len: "length new = 256"
      and ins: "\<forall>i<unat n. new ! (unat off + i) = write_buf ! (unat bytes_written + i)"
      and out: "\<forall>i<256. i < unat off \<or> unat off + unat n \<le> i \<longrightarrow>
                     new ! i = store d (unat dn) (unat bn) ! i"
      by blast
    define d1 where "d1 = d\<lparr>issued := issued d @
                      [encode_op JBOD_SEEK_TO_DISK (ucast dn) 0,
                       encode_op JBOD_SEEK_TO_BLOCK 0 (ucast bn)] @
                      (if n < 256 \<or> off \<noteq> 0 then [encode_op JBOD_READ_BLOCK 0 0] else []) @
                      [encode_op JBOD_WRITE_BLOCK 0 0],
                   cur_disk := unat dn,
                   cur_block := unat bn,
                   store := (store d)(unat dn := (store d (unat dn))(unat bn := new))\<rparr>"
    have m1: "dev_mounted d1"
      using less.prems(2) by (simp add: d1_def)
    have wf1: "\<forall>dk bk. length (store d1 dk bk) = 256"
      using less.prems(3) len by (simp add: d1_def)
    have vb1: "volume_byte d1 x =
                 (if x div 256 = ?A div 256 then new ! (x mod 256) else volume_byte d x)" for x
      using same_block_iff [of x ?A]
      by (auto simp: volume_byte_def d1_def u(1) u(2))
    from less.hyps [OF st(2) st(1) m1 wf1]
    obtain d' where
      res: "write_loop jbod_operation start_addr write_len (bytes_written + n) write_buf d1
              = (uint write_len, d')"
      and m': "dev_mounted d'" and wf': "\<forall>dk bk. length (store d' dk bk) = 256"
      and vb': "\<forall>x. volume_byte d' x =
                     (if unat start_addr + unat (bytes_written + n) \<le> x \<and>
                         x < unat start_addr + unat write_len
                      then write_buf ! (x - unat start_addr)
                      else volume_byte d1 x)"
      by blast
    have bytes: "volume_byte d' x =
                     (if ?A \<le> x \<and> x < unat start_addr + unat write_len
                      then write_buf ! (x - unat start_addr)
                      else volume_byte d x)" for x
    proof (cases "?A + unat n \<le> x \<and> x < unat start_addr + unat write_len")
      case True
      then have "unat start_addr + unat (bytes_written + n) \<le> x \<and>
                 x < unat start_addr + unat write_len"
        using b(6) by arith
      then have "volume_byte d' x = write_buf ! (x - unat start_addr)"
        using vb' [rule_format, of x] by (simp only: simp_thms if_True)
      then show ?thesis
        using True by simp
    next
      case False
      then have "\<not> (unat start_addr + unat (bytes_written + n) \<le> x \<and>
                  x < unat start_addr + unat write_len)"
        using b(6) by arith
      then have later: "volume_byte d' x = volume_byte d1 x"
        using vb' [rule_format, of x] by (simp only: simp_thms if_False)
      have notlate: "\<not> (?A + unat n \<le> x \<and> x < unat start_addr + unat write_len)"
        using False .
      show ?thesis
      proof (cases "x div 256 = ?A div 256")
        case same: True
        have i: "x mod 256 < 256" by simp
        show ?thesis
        proof (cases "?A \<le> x \<and> x < ?A + unat n")
          case True
          then have idx: "x - ?A = x mod 256 - ?A mod 256" and ge: "?A mod 256 \<le> x mod 256"
            and lt': "x mod 256 < ?A mod 256 + unat n"
            using in_segment_index [OF same] in_segment_iff [OF same, of "unat n"] by simp_all
          have "new ! (x mod 256) = new ! (unat off + (x mod 256 - ?A mod 256))"
            using ge by (simp add: uoff)
          also have "\<dots> = write_buf ! (unat bytes_written + (x mod 256 - ?A mod 256))"
            using ins [rule_format, of "x mod 256 - ?A mod 256"] ge lt' by simp
          also have "unat bytes_written + (x mod 256 - ?A mod 256) = x - unat start_addr"
            using idx True by linarith
          finally have "new ! (x mod 256) = write_buf ! (x - unat start_addr)" .
          moreover have "x < unat start_addr + unat write_len"
            using True b(5) by linarith
          ultimately show ?thesis
            using later vb1 [of x] same True by auto
        next
          case False
          then have "x mod 256 < unat off \<or> unat off + unat n \<le> x mod 256"
            using in_segment_iff [OF same, of "unat n"] uoff by auto
          then have "new ! (x mod 256) = store d (unat dn) (unat bn) ! (x mod 256)"
            using out [rule_format, of "x mod 256"] by simp
          also have "\<dots> = volume_byte d x"
            using same same_block_iff [of x ?A]
            by (simp add: volume_byte_def u(1) u(2))
          finally have keep: "new ! (x mod 256) = volume_byte d x" .
          have "\<not> (?A \<le> x \<and> x < unat start_addr + unat write_len)"
            using False notlate by linarith
          then show ?thesis
            using later vb1 [of x] same keep by auto
        qed
      next
        case other: False
        have "\<not> (?A \<le> x \<and> x < ?A + unat n)"
          using other_block_outside [OF other, of "unat n"] b(3) uoff by simp
        then have "\<not> (?A \<le> x \<and> x < unat start_addr + unat write_len)"
          using notlate by linarith
        then show ?thesis
          using later vb1 [of x] other by auto
      qed
    qed
    have "write_loop jbod_operation start_addr write_len bytes_written write_buf d
            = (uint write_len, d')"
      using step res by (simp add: d1_def)
    with m' wf' bytes show ?thesis by blast
  qed
qed

text \<open>
  So a call of \<open>mdadm_write\<close> that passes the argument checks returns its length and
  changes exactly the bytes of its range: every byte of the volume outside the range,
  in the blocks it touches and in all others, keeps its value.
\<close>

lemma mdadm_write_volume:
  assumes "mounted v \<noteq> 0" and "write_permission v"
    and "unat write_len \<le> 1024"
    and rng: "unat start_addr + unat write_len \<le> 16 * 65536"
    and buf: "unat write_len \<le> length write_buf"
    and dev: "dev_mounted (jbod v)"
    and wf: "\<forall>dk bk. length (store (jbod v) dk bk) = 256"
  shows "\<exists>d'. mdadm_write jbod_operation start_addr write_len (Some write_buf) v
                 = (uint write_len, v\<lparr>jbod := d'\<rparr>) \<and>
              (\<forall>a. volume_byte d' a =
                     (if unat start_addr \<le> a \<and> a < unat start_addr + unat write_len
                      then write_buf ! (a - unat start_addr)
                      else volume_byte (jbod v) a))"
proof -
  have "(0 :: 32 word) \<le> write_len" by simp
  from write_loop_volume [OF rng buf this dev wf]
  obtain d' where
    res: "write_loop jbod_operation start_addr write_len 0 write_buf (jbod v) = (uint write_len, d')"
    and bytes: "\<forall>a. volume_byte d' a =
                     (if unat start_addr + unat (0 :: 32 word) \<le> a \<and>
                         a < unat start_addr + unat write_len
                      then write_buf ! (a - unat start_addr)
                      else volume_byte (jbod v) a)"
    by blast
  have inr: "\<not> out_of_range start_addr write_len"
    using rng by (simp add: out_of_range_def)
  show ?thesis
  proof (cases "write_len = 0")
    case True
    then have "d' = jbod v"
      using res by (simp add: write_loop_done)
    then show ?thesis
      using assms(1,2) True by (intro exI [of _ "jbod v"]) (auto simp: mdadm_write_def)
  next
    case False
    have "mdadm_write jbod_operation start_addr write_len (Some write_buf) v
            = (uint write_len, v\<lparr>jbod := d'\<rparr>)"
      using assms(1,2,3) False inr range_check [of start_addr write_len] len_check [of write_len]
        res
      by (simp add: mdadm_write_def max_addr Let_def)
    with bytes show ?thesis
      by (intro exI [of _ d']) simp
  qed
qed

section \<open>Facts about the commands a call sends\<close>

text \<open>
  Recording does not change a run of either loop, and the loop returns -4 exactly when
  one of the commands it sent was refused, and the length of the call otherwise.
\<close>

lemma refused_append: "refused (xs @ ys) \<longleftrightarrow> refused xs \<or> refused ys"
  by (auto simp: refused_def)

lemma read_loop_recorded:
  assumes "bytes_read \<le> read_len"
  shows "\<exists>r out d' new.
           read_loop (recording jop) start_addr read_len bytes_read read_buf (d, log)
             = (r, out, (d', log @ new)) \<and>
           read_loop jop start_addr read_len bytes_read read_buf d = (r, out, d') \<and>
           (if refused new then r = - 4 else r = uint read_len)"
  using assms
proof (induction "unat (read_len - bytes_read)" arbitrary: bytes_read read_buf d log
       rule: less_induct)
  case less
  show ?case
  proof (cases "bytes_read < read_len")
    case False
    with less.prems have "bytes_read = read_len" by simp
    then show ?thesis
      by (simp add: read_loop_done refused_def)
  next
    case True
    obtain dn bn off n where seg: "segment start_addr read_len bytes_read = (dn, bn, off, n)"
      by (cases "segment start_addr read_len bytes_read") auto
    note st = segment_step_le [OF True seg]
    let ?o1 = "encode_op JBOD_SEEK_TO_DISK (ucast (dn AND 0x0F)) 0"
    let ?o2 = "encode_op JBOD_SEEK_TO_BLOCK 0 (ucast (bn AND 0xFF))"
    let ?o3 = "encode_op JBOD_READ_BLOCK 0 0"
    obtain r1 b1 d1 where o1: "jop ?o1 None d = (r1, b1, d1)"
      by (cases "jop ?o1 None d") auto
    obtain r2 b2 d2 where o2: "jop ?o2 None d1 = (r2, b2, d2)"
      by (cases "jop ?o2 None d1") auto
    obtain r3 b3 d3 where o3: "jop ?o3 (Some zero_block) d2 = (r3, b3, d3)"
      by (cases "jop ?o3 (Some zero_block) d2") auto
    let ?buf' = "map_option (\<lambda>out. memcpy out (unat bytes_read) (block_after zero_block b3)
                                     (unat off) (unat n)) read_buf"
    let ?l1 = "log @ [(?o1, r1)]"
    let ?l2 = "log @ [(?o1, r1), (?o2, r2)]"
    let ?l3 = "log @ [(?o1, r1), (?o2, r2), (?o3, r3)]"
    have plain: "read_loop jop start_addr read_len bytes_read read_buf d =
        (if r1 \<noteq> 0 then (- 4, read_buf, d1)
         else if r2 \<noteq> 0 then (- 4, read_buf, d2)
         else if r3 \<noteq> 0 then (- 4, read_buf, d3)
         else read_loop jop start_addr read_len (bytes_read + n) ?buf' d3)"
      using True seg o1 o2 o3 by (subst read_loop.simps) simp
    have rec: "read_loop (recording jop) start_addr read_len bytes_read read_buf (d, log) =
        (if r1 \<noteq> 0 then (- 4, read_buf, (d1, ?l1))
         else if r2 \<noteq> 0 then (- 4, read_buf, (d2, ?l2))
         else if r3 \<noteq> 0 then (- 4, read_buf, (d3, ?l3))
         else read_loop (recording jop) start_addr read_len (bytes_read + n) ?buf' (d3, ?l3))"
      using True seg o1 o2 o3 by (subst read_loop.simps) (simp add: recording_def)
    show ?thesis
    proof (cases "r1 = 0 \<and> r2 = 0 \<and> r3 = 0")
      case False
      then consider "r1 \<noteq> 0" | "r1 = 0" "r2 \<noteq> 0" | "r1 = 0" "r2 = 0" "r3 \<noteq> 0"
        by blast
      then show ?thesis
      proof cases
        case 1
        then show ?thesis
          unfolding plain rec
          by (intro exI [of _ "- 4"] exI [of _ read_buf] exI [of _ d1] exI [of _ "[(?o1, r1)]"])
             (simp add: refused_def)
      next
        case 2
        then show ?thesis
          unfolding plain rec
          by (intro exI [of _ "- 4"] exI [of _ read_buf] exI [of _ d2]
                exI [of _ "[(?o1, r1), (?o2, r2)]"])
             (simp add: refused_def)
      next
        case 3
        then show ?thesis
          unfolding plain rec
          by (intro exI [of _ "- 4"] exI [of _ read_buf] exI [of _ d3]
                exI [of _ "[(?o1, r1), (?o2, r2), (?o3, r3)]"])
             (simp add: refused_def)
      qed
    next
      case ok: True
      from less.hyps [OF st(2) st(1), of ?buf' d3 ?l3]
      obtain r out d' new where
        ih: "read_loop (recording jop) start_addr read_len (bytes_read + n) ?buf' (d3, ?l3)
               = (r, out, (d', ?l3 @ new))"
          "read_loop jop start_addr read_len (bytes_read + n) ?buf' d3 = (r, out, d')"
          "if refused new then r = - 4 else r = uint read_len"
        by blast
      have "refused ([(?o1, r1), (?o2, r2), (?o3, r3)] @ new) = refused new"
        using ok by (simp add: refused_append) (simp add: refused_def)
      with ih ok show ?thesis
        unfolding plain rec
        by (intro exI [of _ r] exI [of _ out] exI [of _ d']
              exI [of _ "[(?o1, r1), (?o2, r2), (?o3, r3)] @ new"])
           simp
    qed
  qed
qed


lemma write_loop_recorded:
  assumes "bytes_written \<le> write_len"
  shows "\<exists>r d' new.
           write_loop (recording jop) start_addr write_len bytes_written write_buf (d, log)
             = (r, (d', log @ new)) \<and>
           write_loop jop start_addr write_len bytes_written write_buf d = (r, d') \<and>
           (if refused new then r = - 4 else r = uint write_len)"
  using assms
proof (induction "unat (write_len - bytes_written)" arbitrary: bytes_written d log
       rule: less_induct)
  case less
  show ?case
  proof (cases "bytes_written < write_len")
    case False
    with less.prems have "bytes_written = write_len" by simp
    then show ?thesis
      by (simp add: write_loop_done refused_def)
  next
    case True
    obtain dn bn off n where seg: "segment start_addr write_len bytes_written = (dn, bn, off, n)"
      by (cases "segment start_addr write_len bytes_written") auto
    note st = segment_step_le [OF True seg]
    let ?o1 = "encode_op JBOD_SEEK_TO_DISK (ucast dn) 0"
    let ?o2 = "encode_op JBOD_SEEK_TO_BLOCK 0 (ucast bn)"
    let ?o3 = "encode_op JBOD_READ_BLOCK 0 0"
    let ?o4 = "encode_op JBOD_WRITE_BLOCK 0 0"
    let ?partial = "n < JBOD_BLOCK_SIZE \<or> off \<noteq> 0"
    obtain r1 b1 d1 where o1: "jop ?o1 None d = (r1, b1, d1)"
      by (cases "jop ?o1 None d") auto
    obtain r2 b2 d2 where o2: "jop ?o2 None d1 = (r2, b2, d2)"
      by (cases "jop ?o2 None d1") auto
    obtain r3 b3 d3 where o3: "jop ?o3 (Some zero_block) d2 = (r3, b3, d3)"
      by (cases "jop ?o3 (Some zero_block) d2") auto
    define r3' where "r3' = (if ?partial then r3 else 0)"
    define b3' where "b3' = (if ?partial then b3 else Some zero_block)"
    define d3' where "d3' = (if ?partial then d3 else d2)"
    define pre where "pre = [(?o1, r1), (?o2, r2)] @ (if ?partial then [(?o3, r3)] else [])"
    let ?blk = "memcpy (block_after zero_block b3') (unat off) write_buf (unat bytes_written)
                  (unat n)"
    obtain r4 b4 d4 where o4: "jop ?o4 (Some ?blk) d3' = (r4, b4, d4)"
      by (cases "jop ?o4 (Some ?blk) d3'") auto
    have plain: "write_loop jop start_addr write_len bytes_written write_buf d =
        (if r1 \<noteq> 0 then (- 4, d1)
         else if r2 \<noteq> 0 then (- 4, d2)
         else if r3' \<noteq> 0 then (- 4, d3')
         else if r4 \<noteq> 0 then (- 4, d4)
         else write_loop jop start_addr write_len (bytes_written + n) write_buf d4)"
    proof (cases ?partial)
      case p: True
      have o4': "jop ?o4 (Some (memcpy (block_after zero_block b3) (unat off) write_buf
                                 (unat bytes_written) (unat n))) d3 = (r4, b4, d4)"
        using o4 p by (simp add: b3'_def d3'_def)
      have "r3' = r3" "d3' = d3"
        using p by (simp_all add: r3'_def d3'_def)
      then show ?thesis
        using True seg o1 o2 o3 o4' p by (subst write_loop.simps) simp
    next
      case p: False
      have o4': "jop ?o4 (Some (memcpy (block_after zero_block (Some zero_block)) (unat off)
                                 write_buf (unat bytes_written) (unat n))) d2 = (r4, b4, d4)"
        using o4 p by (simp add: b3'_def d3'_def)
      have "r3' = 0" "d3' = d2"
        using p by (simp_all add: r3'_def d3'_def)
      then show ?thesis
        using True seg o1 o2 o4' p by (subst write_loop.simps) simp
    qed
    have rec: "write_loop (recording jop) start_addr write_len bytes_written write_buf (d, log) =
        (if r1 \<noteq> 0 then (- 4, (d1, log @ [(?o1, r1)]))
         else if r2 \<noteq> 0 then (- 4, (d2, log @ [(?o1, r1), (?o2, r2)]))
         else if r3' \<noteq> 0 then (- 4, (d3', log @ pre))
         else if r4 \<noteq> 0 then (- 4, (d4, log @ pre @ [(?o4, r4)]))
         else write_loop (recording jop) start_addr write_len (bytes_written + n) write_buf
                (d4, log @ pre @ [(?o4, r4)]))"
    proof (cases ?partial)
      case p: True
      have o4': "jop ?o4 (Some (memcpy (block_after zero_block b3) (unat off) write_buf
                                 (unat bytes_written) (unat n))) d3 = (r4, b4, d4)"
        using o4 p by (simp add: b3'_def d3'_def)
      have "r3' = r3" "d3' = d3" "pre = [(?o1, r1), (?o2, r2), (?o3, r3)]"
        using p by (simp_all add: r3'_def d3'_def pre_def)
      then show ?thesis
        using True seg o1 o2 o3 o4' p
        by (subst write_loop.simps) (simp add: recording_def)
    next
      case p: False
      have o4': "jop ?o4 (Some (memcpy (block_after zero_block (Some zero_block)) (unat off)
                                 write_buf (unat bytes_written) (unat n))) d2 = (r4, b4, d4)"
        using o4 p by (simp add: b3'_def d3'_def)
      have "r3' = 0" "d3' = d2" "pre = [(?o1, r1), (?o2, r2)]"
        using p by (simp_all add: r3'_def d3'_def pre_def)
      then show ?thesis
        using True seg o1 o2 o4' p
        by (subst write_loop.simps) (simp add: recording_def)
    qed
    have pre_ref: "refused pre \<longleftrightarrow> r1 \<noteq> 0 \<or> r2 \<noteq> 0 \<or> r3' \<noteq> 0"
      by (auto simp: pre_def r3'_def refused_def)
    show ?thesis
    proof (cases "r1 = 0 \<and> r2 = 0 \<and> r3' = 0 \<and> r4 = 0")
      case False
      then consider "r1 \<noteq> 0" | "r1 = 0" "r2 \<noteq> 0" | "r1 = 0" "r2 = 0" "r3' \<noteq> 0"
        | "r1 = 0" "r2 = 0" "r3' = 0" "r4 \<noteq> 0"
        by blast
      then show ?thesis
      proof cases
        case 1
        then show ?thesis
          unfolding plain rec
          by (intro exI [of _ "- 4"] exI [of _ d1] exI [of _ "[(?o1, r1)]"])
             (simp add: refused_def)
      next
        case 2
        then show ?thesis
          unfolding plain rec
          by (intro exI [of _ "- 4"] exI [of _ d2] exI [of _ "[(?o1, r1), (?o2, r2)]"])
             (simp add: refused_def)
      next
        case 3
        then show ?thesis
          unfolding plain rec
          by (intro exI [of _ "- 4"] exI [of _ d3'] exI [of _ pre]) (simp add: pre_ref)
      next
        case 4
        then show ?thesis
          unfolding plain rec
          by (intro exI [of _ "- 4"] exI [of _ d4] exI [of _ "pre @ [(?o4, r4)]"])
             (simp add: refused_append refused_def)
      qed
    next
      case ok: True
      from less.hyps [OF st(2) st(1), of d4 "log @ pre @ [(?o4, r4)]"]
      obtain r d' new where
        ih: "write_loop (recording jop) start_addr write_len (bytes_written + n) write_buf
               (d4, log @ pre @ [(?o4, r4)]) = (r, (d', (log @ pre @ [(?o4, r4)]) @ new))"
          "write_loop jop start_addr write_len (bytes_written + n) write_buf d4 = (r, d')"
          "if refused new then r = - 4 else r = uint write_len"
        by blast
      have "refused ((pre @ [(?o4, r4)]) @ new) = refused new"
        using ok pre_ref by (simp add: refused_append) (simp add: refused_def)
      with ih ok show ?thesis
        unfolding plain rec
        by (intro exI [of _ r] exI [of _ d'] exI [of _ "(pre @ [(?o4, r4)]) @ new"]) simp
    qed
  qed
qed

lemma mdadm_read_recorded:
  "\<exists>r out d' new.
     mdadm_read (recording jop) start_addr len buf (recorded v)
       = (r, out, \<lparr>mounted = mounted v, write_permission = write_permission v,
                   jbod = (d', new)\<rparr>) \<and>
     mdadm_read jop start_addr len buf v = (r, out, v\<lparr>jbod := d'\<rparr>) \<and>
     (read_failure v start_addr len buf \<noteq> None \<longrightarrow> new = []) \<and>
     (read_failure v start_addr len buf = None \<longrightarrow>
        (if refused new then r = - 4 else r = uint len))"
proof (cases "read_failure v start_addr len buf = None")
  case False
  then obtain k where k: "read_failure v start_addr len buf = Some k" by auto
  note checks = range_check [of start_addr len] len_check [of len]
  have "mdadm_read jop start_addr len buf v = (result_value k, buf, v)"
    using k checks by (auto simp: read_failure_def mdadm_read_def max_addr Let_def split: if_splits)
  moreover have "mdadm_read (recording jop) start_addr len buf (recorded v)
                   = (result_value k, buf, recorded v)"
    using k checks
    by (auto simp: read_failure_def mdadm_read_def max_addr Let_def recorded_def split: if_splits)
  ultimately show ?thesis
    using k
    by (intro exI [of _ "result_value k"] exI [of _ buf] exI [of _ "jbod v"] exI [of _ "[]"])
       (simp add: recorded_def)
next
  case True
  note checks = range_check [of start_addr len] len_check [of len]
  have "(0 :: 32 word) \<le> len" by simp
  from read_loop_recorded [OF this, of jop start_addr buf "jbod v" "[]"]
  obtain r out d' new where
    l: "read_loop (recording jop) start_addr len 0 buf (jbod v, []) = (r, out, (d', new))"
      "read_loop jop start_addr len 0 buf (jbod v) = (r, out, d')"
      "if refused new then r = - 4 else r = uint len"
    by auto
  have "mdadm_read jop start_addr len buf v = (r, out, v\<lparr>jbod := d'\<rparr>)"
    using True checks l(2)
    by (auto simp: read_failure_def mdadm_read_def max_addr Let_def split: if_splits)
  moreover have "mdadm_read (recording jop) start_addr len buf (recorded v)
                   = (r, out, \<lparr>mounted = mounted v, write_permission = write_permission v,
                               jbod = (d', new)\<rparr>)"
    using True checks l(1)
    by (auto simp: read_failure_def mdadm_read_def max_addr Let_def recorded_def split: if_splits)
  ultimately show ?thesis
    using True l(3)
    by (intro exI [of _ r] exI [of _ out] exI [of _ d'] exI [of _ new]) simp
qed

lemma mdadm_write_recorded:
  "\<exists>r d' new.
     mdadm_write (recording jop) start_addr len buf (recorded v)
       = (r, \<lparr>mounted = mounted v, write_permission = write_permission v,
              jbod = (d', new)\<rparr>) \<and>
     mdadm_write jop start_addr len buf v = (r, v\<lparr>jbod := d'\<rparr>) \<and>
     (write_failure v start_addr len buf \<noteq> None \<longrightarrow> new = []) \<and>
     (write_failure v start_addr len buf = None \<longrightarrow>
        (if refused new then r = - 4 else r = uint len))"
proof (cases "write_failure v start_addr len buf = None")
  case False
  then obtain k where k: "write_failure v start_addr len buf = Some k" by auto
  note checks = range_check [of start_addr len] len_check [of len]
  have "mdadm_write jop start_addr len buf v = (result_value k, v)"
    using k checks
    by (auto simp: write_failure_def mdadm_write_def max_addr Let_def split: if_splits)
  moreover have "mdadm_write (recording jop) start_addr len buf (recorded v)
                   = (result_value k, recorded v)"
    using k checks
    by (auto simp: write_failure_def mdadm_write_def max_addr Let_def recorded_def
        split: if_splits)
  ultimately show ?thesis
    using k
    by (intro exI [of _ "result_value k"] exI [of _ "jbod v"] exI [of _ "[]"])
       (simp add: recorded_def)
next
  case True
  note checks = range_check [of start_addr len] len_check [of len]
  show ?thesis
  proof (cases "len = 0")
    case z: True
    have "mdadm_write jop start_addr len buf v = (0, v)"
      using True z by (auto simp: write_failure_def mdadm_write_def split: if_splits)
    moreover have "mdadm_write (recording jop) start_addr len buf (recorded v) = (0, recorded v)"
      using True z
      by (auto simp: write_failure_def mdadm_write_def recorded_def split: if_splits)
    ultimately show ?thesis
      using True z
      by (intro exI [of _ 0] exI [of _ "jbod v"] exI [of _ "[]"])
         (simp add: recorded_def refused_def)
  next
    case nz: False
    let ?wb = "case buf of None \<Rightarrow> [] | Some b \<Rightarrow> b"
    have "(0 :: 32 word) \<le> len" by simp
    from write_loop_recorded [OF this, of jop start_addr ?wb "jbod v" "[]"]
    obtain r d' new where
      l: "write_loop (recording jop) start_addr len 0 ?wb (jbod v, []) = (r, (d', new))"
        "write_loop jop start_addr len 0 ?wb (jbod v) = (r, d')"
        "if refused new then r = - 4 else r = uint len"
      by auto
    have "mdadm_write jop start_addr len buf v = (r, v\<lparr>jbod := d'\<rparr>)"
      using True nz checks l(2)
      by (auto simp: write_failure_def mdadm_write_def max_addr Let_def split: if_splits)
    moreover have "mdadm_write (recording jop) start_addr len buf (recorded v)
                     = (r, \<lparr>mounted = mounted v, write_permission = write_permission v,
                            jbod = (d', new)\<rparr>)"
      using True nz checks l(1)
      by (auto simp: write_failure_def mdadm_write_def max_addr Let_def recorded_def
          split: if_splits)
    ultimately show ?thesis
      using True l(3)
      by (intro exI [of _ r] exI [of _ d'] exI [of _ new]) simp
  qed
qed

section \<open>Eviction from a full cache\<close>

text \<open>
  Claim C1. In a cache whose slots are all valid, inserting a (disk, block) pair that no
  slot holds succeeds and overwrites exactly one slot \<open>k\<close>: no slot has a higher tick
  than slot \<open>k\<close>, and every slot before \<open>k\<close> has a strictly lower one, so among equal
  maximal ticks the lowest index is taken. The state is one with an array of
  \<open>cache_size\<close> slots whose ticks are not negative, as in every reachable state
  (\<open>reachable_cache_inv\<close>); the arguments are the ones \<open>cache_insert\<close> accepts.
\<close>

theorem insert_full_replaces_mru:
  assumes arr: "cache_arr s = Some es"
    and len: "int (length es) = cache_size s"
    and ne: "es \<noteq> []"
    and full: "\<forall>e\<in>set es. valid e"
    and ticks: "\<forall>e\<in>set es. 0 \<le> clock_accesses e"
    and args: "0 \<le> d" "0 \<le> b"
    and absent: "\<forall>e\<in>set es. \<not> (disk_num e = d \<and> block_num e = b)"
  shows "\<exists>k<length es.
           (\<forall>j<length es. clock_accesses (es ! j) \<le> clock_accesses (es ! k)) \<and>
           (\<forall>j<k. clock_accesses (es ! j) < clock_accesses (es ! k)) \<and>
           cache_insert d b (Some src) s =
             (1, s\<lparr>clock := clock s + 1,
                   cache_arr := Some (es[k := \<lparr>valid = True, disk_num = d, block_num = b,
                                              block = take 256 src,
                                              clock_accesses = clock s + 1\<rparr>])\<rparr>)"
proof -
  have n: "nat (cache_size s) = length es"
    using len by simp
  have pos: "0 < cache_size s"
    using len ne by (cases es) auto
  have en: "cache_enabled s"
    using arr pos by (simp add: cache_enabled_def)
  have miss: "find_cache_entry es (cache_size s) d b = - 1"
    using absent by (simp add: find_cache_entry_miss n)
  have noinv: "find_invalid_entry es (cache_size s) = - 1"
    using full by (simp add: find_invalid_entry_none n)
  have "\<forall>i<nat (cache_size s). valid (es ! i) \<and> 0 \<le> clock_accesses (es ! i)"
    using full ticks by (simp add: n)
  from find_mru_entry_full [OF this pos]
  obtain k where k: "k < length es" "find_mru_entry es (cache_size s) = int k"
    and mx: "\<forall>i<length es. clock_accesses (es ! i) \<le> clock_accesses (es ! k)"
    and fst: "\<forall>i<k. clock_accesses (es ! i) < clock_accesses (es ! k)"
    by (auto simp: n)
  have "cache_insert d b (Some src) s =
          (1, s\<lparr>clock := clock s + 1,
                cache_arr := Some (es[k := \<lparr>valid = True, disk_num = d, block_num = b,
                                           block = take 256 src,
                                           clock_accesses = clock s + 1\<rparr>])\<rparr>)"
    using arr en args miss noinv k by (simp add: cache_insert_def Let_def entry_all_fields)
  with k mx fst show ?thesis by blast
qed

theorem insert_full_replaces_mru_witness:
  "cache_insert 1 7 (Some [1, 2]) tied_cache =
     (1, tied_cache\<lparr>clock := 6, cache_arr := Some
        [\<lparr>valid = True, disk_num = 0, block_num = 0, block = [], clock_accesses = 3\<rparr>,
         \<lparr>valid = True, disk_num = 1, block_num = 7, block = [1, 2], clock_accesses = 6\<rparr>,
         \<lparr>valid = True, disk_num = 0, block_num = 2, block = [], clock_accesses = 5\<rparr>]\<rparr>)"
proof -
  let ?es = "[\<lparr>valid = True, disk_num = 0, block_num = 0, block = [], clock_accesses = 3\<rparr>,
         \<lparr>valid = True, disk_num = 0, block_num = 1, block = [], clock_accesses = 5\<rparr>,
         \<lparr>valid = True, disk_num = 0, block_num = 2, block = [], clock_accesses = 5\<rparr>]"
  obtain k where k: "k < length ?es"
    and mx: "\<forall>j<length ?es. clock_accesses (?es ! j) \<le> clock_accesses (?es ! k)"
    and fs: "\<forall>j<k. clock_accesses (?es ! j) < clock_accesses (?es ! k)"
    and ins: "cache_insert 1 7 (Some [1, 2]) tied_cache =
             (1, tied_cache\<lparr>clock := clock tied_cache + 1,
                   cache_arr := Some (?es[k := \<lparr>valid = True, disk_num = 1, block_num = 7,
                                              block = take 256 [1, 2],
                                              clock_accesses = clock tied_cache + 1\<rparr>])\<rparr>)"
    using insert_full_replaces_mru [of tied_cache ?es 1 7 "[1, 2]"]
    by (auto simp: tied_cache_def)
  from k have "k = 0 \<or> k = 1 \<or> k = 2" by auto
  moreover have "k \<noteq> 0"
  proof
    assume "k = 0"
    with mx [rule_format, of 1] show False by simp
  qed
  moreover have "k \<noteq> 2"
  proof
    assume "k = 2"
    with fs [rule_format, of 1] show False by simp
  qed
  ultimately have "k = 1" by blast
  with ins show ?thesis by (simp add: tied_cache_def)
qed

section \<open>Creating the cache\<close>

text \<open>
  Claim C9. In every reachable state \<open>cache_create\<close> fails, leaving the state as it is,
  when a cache exists or the capacity is outside 2 to 4096; with no cache, a capacity in
  range and a successful allocation it succeeds; and whenever it succeeds the new array has
  \<open>capacity\<close> slots, all invalid, and the clock, the query count and the hit count are
  zero. The code resets only the clock: the two counters are zero because they are zero
  whenever no cache exists.
\<close>

theorem cache_create_spec:
  assumes "reachable s"
  shows "(cache_arr s \<noteq> None \<or> n < 2 \<or> 4096 < n \<longrightarrow> cache_create mem n s = (- 1, s)) \<and>
         (cache_arr s = None \<and> 2 \<le> n \<and> n \<le> 4096 \<longrightarrow> fst (cache_create (Some g) n s) = 1) \<and>
         (fst (cache_create mem n s) = 1 \<longrightarrow>
            (\<exists>es. cache_arr (snd (cache_create mem n s)) = Some es \<and>
                  int (length es) = n \<and> (\<forall>e\<in>set es. \<not> valid e)) \<and>
            cache_size (snd (cache_create mem n s)) = n \<and>
            clock (snd (cache_create mem n s)) = 0 \<and>
            num_queries (snd (cache_create mem n s)) = 0 \<and>
            num_hits (snd (cache_create mem n s)) = 0)"
proof -
  have inv: "cache_inv s"
    using assms by (rule reachable_cache_inv)
  have zero: "num_queries s = 0 \<and> num_hits s = 0" if "cache_arr s = None"
    using inv that by (simp add: cache_inv_def)
  have fails: "cache_arr s \<noteq> None \<or> n < 2 \<or> 4096 < n \<longrightarrow> cache_create mem n s = (- 1, s)"
    by (auto simp: cache_create_def)
  have ok: "cache_arr s = None \<and> 2 \<le> n \<and> n \<le> 4096 \<longrightarrow> fst (cache_create (Some g) n s) = 1"
    by (simp add: cache_create_def)
  have post: "fst (cache_create mem n s) = 1 \<longrightarrow>
            (\<exists>es. cache_arr (snd (cache_create mem n s)) = Some es \<and>
                  int (length es) = n \<and> (\<forall>e\<in>set es. \<not> valid e)) \<and>
            cache_size (snd (cache_create mem n s)) = n \<and>
            clock (snd (cache_create mem n s)) = 0 \<and>
            num_queries (snd (cache_create mem n s)) = 0 \<and>
            num_hits (snd (cache_create mem n s)) = 0"
  proof (cases "cache_arr s \<noteq> None \<or> n < 2 \<or> 4096 < n \<or> mem = None")
    case True
    then have "fst (cache_create mem n s) = - 1"
      by (auto simp: cache_create_def)
    then show ?thesis by simp
  next
    case False
    then obtain g' where "mem = Some g'" by auto
    with False zero show ?thesis
      by (auto simp: cache_create_def)
  qed
  from fails ok post show ?thesis by blast
qed

theorem cache_create_spec_witness:
  "reachable torn_down \<and>
   cache_create (Some junk_mem) 2 torn_down =
     (1, \<lparr>cache_arr = Some
           [\<lparr>valid = False, disk_num = 7, block_num = 7, block = [], clock_accesses = - 9\<rparr>,
            \<lparr>valid = False, disk_num = 7, block_num = 7, block = [], clock_accesses = - 9\<rparr>],
          cache_size = 2, clock = 0, num_queries = 0, num_hits = 0\<rparr>) \<and>
   cache_create (Some junk_mem) 2 warm_cache = (- 1, warm_cache) \<and>
   cache_create (Some junk_mem) 1 torn_down = (- 1, torn_down)"
proof -
  let ?r = "cache_create (Some junk_mem) 2 torn_down"
  have none: "cache_arr torn_down = None"
    by (simp add: torn_down_def cache_destroy_def)
  have one: "fst ?r = 1"
    using cache_create_spec [OF reachable_torn_down, of 2 "Some junk_mem" junk_mem] none by simp
  with cache_create_spec [OF reachable_torn_down, of 2 "Some junk_mem" junk_mem]
  have post: "cache_size (snd ?r) = 2" "clock (snd ?r) = 0" "num_queries (snd ?r) = 0"
    "num_hits (snd ?r) = 0"
    by simp_all
  have arr: "cache_arr (snd ?r) = Some
           [\<lparr>valid = False, disk_num = 7, block_num = 7, block = [], clock_accesses = - 9\<rparr>,
            \<lparr>valid = False, disk_num = 7, block_num = 7, block = [], clock_accesses = - 9\<rparr>]"
    using none by (simp add: cache_create_def junk_mem_def upt_rec [of 0] upt_rec [of 1]
        upt_rec [of 2] numeral_2_eq_2)
  have a: "?r = (1, \<lparr>cache_arr = Some
           [\<lparr>valid = False, disk_num = 7, block_num = 7, block = [], clock_accesses = - 9\<rparr>,
            \<lparr>valid = False, disk_num = 7, block_num = 7, block = [], clock_accesses = - 9\<rparr>],
          cache_size = 2, clock = 0, num_queries = 0, num_hits = 0\<rparr>)"
    using one post arr by (cases ?r) (auto intro: cache_state.equality)
  have b: "cache_create (Some junk_mem) 2 warm_cache = (- 1, warm_cache)"
    using cache_create_spec [OF reachable_warm_cache, of 2 "Some junk_mem"]
    by (simp add: warm_cache_eq)
  have c: "cache_create (Some junk_mem) 1 torn_down = (- 1, torn_down)"
    using cache_create_spec [OF reachable_torn_down, of 1 "Some junk_mem"] by simp
  from reachable_torn_down a b c show ?thesis by blast
qed

section \<open>Invariants over every sequence of operations\<close>

text \<open>
  Claim C7. In every state reached by any sequence of create, lookup, update, insert, resize
  and destroy, the valid slots of an existing cache hold pairwise different (disk, block)
  pairs, and its capacity, which is the length of the array, is between 2 and 4096. On
  every call whose increments are defined in C, the clock goes up by exactly one, so
  strictly, and stays a C \<open>int\<close>: on every lookup that hits while the three counters
  are below \<open>INT_MAX\<close>, and on every insert that succeeds and every update of a pair
  that a valid slot holds while the clock is below \<open>INT_MAX\<close>. Nothing is said of the
  call made with the clock at \<open>INT_MAX\<close>, where the increment of the C \<open>int\<close>
  overflows.
\<close>

theorem cache_invariants:
  assumes "reachable s"
  shows "(\<forall>es. cache_arr s = Some es \<longrightarrow>
            unique_keys es \<and> int (length es) = cache_size s \<and>
            2 \<le> cache_size s \<and> cache_size s \<le> 4096) \<and>
         (no_overflow s \<and> fst (cache_lookup d b buf s) = 1 \<longrightarrow>
            clock (snd (snd (cache_lookup d b buf s))) = clock s + 1 \<and>
            clock s < clock (snd (snd (cache_lookup d b buf s))) \<and>
            clock (snd (snd (cache_lookup d b buf s))) \<le> INT_MAX) \<and>
         (clock s < INT_MAX \<and> fst (cache_insert d b buf s) = 1 \<longrightarrow>
            clock (snd (cache_insert d b buf s)) = clock s + 1 \<and>
            clock s < clock (snd (cache_insert d b buf s)) \<and>
            clock (snd (cache_insert d b buf s)) \<le> INT_MAX) \<and>
         (\<forall>es. clock s < INT_MAX \<and> cache_arr s = Some es \<and> 0 \<le> d \<and> 0 \<le> b \<and>
               (\<exists>e\<in>set es. valid e \<and> disk_num e = d \<and> block_num e = b) \<longrightarrow>
            clock (cache_update d b (Some src) s) = clock s + 1 \<and>
            clock s < clock (cache_update d b (Some src) s) \<and>
            clock (cache_update d b (Some src) s) \<le> INT_MAX)"
proof -
  have inv: "cache_inv s"
    using assms by (rule reachable_cache_inv)
  have a: "unique_keys es \<and> int (length es) = cache_size s \<and>
           2 \<le> cache_size s \<and> cache_size s \<le> 4096" if "cache_arr s = Some es" for es
    using inv that by (simp add: cache_inv_def)
  have l: "clock (snd (snd (cache_lookup d b buf s))) = clock s + 1 \<and>
           clock s < clock (snd (snd (cache_lookup d b buf s))) \<and>
           clock (snd (snd (cache_lookup d b buf s))) \<le> INT_MAX"
    if "no_overflow s" "fst (cache_lookup d b buf s) = 1"
    using that lookup_hit_clock [of d b buf s] by (simp add: no_overflow_def)
  have i: "clock (snd (cache_insert d b buf s)) = clock s + 1 \<and>
           clock s < clock (snd (cache_insert d b buf s)) \<and>
           clock (snd (cache_insert d b buf s)) \<le> INT_MAX"
    if "clock s < INT_MAX" "fst (cache_insert d b buf s) = 1"
    using that insert_clock [of d b buf s] by simp
  have u: "clock (cache_update d b (Some src) s) = clock s + 1 \<and>
           clock s < clock (cache_update d b (Some src) s) \<and>
           clock (cache_update d b (Some src) s) \<le> INT_MAX"
    if "clock s < INT_MAX" "cache_arr s = Some es" "0 \<le> d" "0 \<le> b"
      "\<exists>e\<in>set es. valid e \<and> disk_num e = d \<and> block_num e = b" for es
  proof -
    have "int (length es) = cache_size s" "es \<noteq> []"
      using a [OF that(2)] by auto
    with that(2-) have "clock (cache_update d b (Some src) s) = clock s + 1"
      by (intro update_existing_clock)
    with that(1) show ?thesis by simp
  qed
  from a l i u show ?thesis
    by blast
qed

theorem cache_invariants_witness:
  "reachable warm_cache \<and>
   unique_keys
     [\<lparr>valid = True, disk_num = 0, block_num = 0, block = [1], clock_accesses = 1\<rparr>,
      \<lparr>valid = True, disk_num = 0, block_num = 1, block = [2], clock_accesses = 2\<rparr>] \<and>
   clock warm_cache = 2 \<and> no_overflow warm_cache \<and>
   fst (cache_lookup 0 1 (Some []) warm_cache) = 1 \<and>
   clock (snd (snd (cache_lookup 0 1 (Some []) warm_cache))) = 3 \<and>
   fst (cache_insert 0 2 (Some [3]) warm_cache) = 1 \<and>
   clock (snd (cache_insert 0 2 (Some [3]) warm_cache)) = 3 \<and>
   clock (cache_update 0 0 (Some [9]) warm_cache) = 3"
proof -
  note inst = cache_invariants [OF reachable_warm_cache]
  have hit: "fst (cache_lookup 0 1 (Some []) warm_cache) = 1"
    by (simp add: warm_cache_eq cache_lookup_def cache_enabled_def find_cache_entry_def Let_def
        upt_rec [of 0] upt_rec [of 1] upt_rec [of 2] numeral_2_eq_2)
  have ins: "fst (cache_insert 0 2 (Some [3]) warm_cache) = 1"
    by (simp add: warm_cache_eq cache_insert_def cache_enabled_def find_cache_entry_def
        find_invalid_entry_def find_mru_entry_def mru_step_def Let_def
        upt_rec [of 0] upt_rec [of 1] upt_rec [of 2] numeral_2_eq_2)
  have c: "clock warm_cache = 2"
    by (simp add: warm_cache_eq)
  have n: "no_overflow warm_cache" and m: "clock warm_cache < INT_MAX"
    by (simp_all add: warm_cache_eq no_overflow_def INT_MAX_def)
  from inst [of 0 1 "Some []" "[9]"] hit c n
  have 1: "clock (snd (snd (cache_lookup 0 1 (Some []) warm_cache))) = 3" by simp
  from inst [of 0 2 "Some [3]" "[9]"] ins c m
  have 2: "clock (snd (cache_insert 0 2 (Some [3]) warm_cache)) = 3" by simp
  from inst [of 0 0 None "[9]"] c m
  have 3: "clock (cache_update 0 0 (Some [9]) warm_cache) = 3"
    by (simp add: warm_cache_eq)
  from inst [of 0 0 None "[9]"]
  have 4: "unique_keys
     [\<lparr>valid = True, disk_num = 0, block_num = 0, block = [1], clock_accesses = 1\<rparr>,
      \<lparr>valid = True, disk_num = 0, block_num = 1, block = [2], clock_accesses = 2\<rparr>]"
    by (simp add: warm_cache_eq)
  from reachable_warm_cache 4 c n hit 1 ins 2 3 show ?thesis by blast
qed

section \<open>Resizing the cache\<close>

text \<open>
  Claim C6. For an enabled cache whose array has \<open>cache_size\<close> slots and a new capacity
  between 2 and 4096, \<open>cache_resize\<close> with a successful allocation returns 1 and changes
  only the array and the capacity: the new array has the new capacity, its first
  min(new, old) slots equal the old ones field by field and in the same order, and every
  slot after them is invalid; when the allocation fails it returns -1 and changes nothing.
  A capacity outside 2 to 4096 fails in every state, and on a cache that is not enabled
  \<open>cache_resize\<close> is \<open>cache_create\<close>.
\<close>

theorem cache_resize_spec:
  "(cache_arr s = Some es \<and> int (length es) = cache_size s \<and> 0 < cache_size s \<and>
    2 \<le> n \<and> n \<le> 4096 \<longrightarrow>
      (\<exists>new. cache_resize (Some g) n s = (1, s\<lparr>cache_arr := Some new, cache_size := n\<rparr>) \<and>
             int (length new) = n \<and>
             (\<forall>i<min (nat n) (length es). new ! i = es ! i) \<and>
             (\<forall>i. min (nat n) (length es) \<le> i \<and> i < nat n \<longrightarrow> \<not> valid (new ! i))) \<and>
      cache_resize None n s = (- 1, s)) \<and>
   (n < 2 \<or> 4096 < n \<longrightarrow> cache_resize mem n s = (- 1, s)) \<and>
   (\<not> cache_enabled s \<longrightarrow> cache_resize mem n s = cache_create mem n s)"
proof -
  have a: "\<exists>new. cache_resize (Some g) n s = (1, s\<lparr>cache_arr := Some new, cache_size := n\<rparr>) \<and>
             int (length new) = n \<and>
             (\<forall>i<min (nat n) (length es). new ! i = es ! i) \<and>
             (\<forall>i. min (nat n) (length es) \<le> i \<and> i < nat n \<longrightarrow> \<not> valid (new ! i))"
    if h: "cache_arr s = Some es" "int (length es) = cache_size s" "0 < cache_size s"
      "2 \<le> n" "n \<le> 4096"
  proof -
    let ?new = "take (nat n) es @ map (\<lambda>i. (g i)\<lparr>valid := False\<rparr>) [length es ..< nat n]"
    have "cache_resize (Some g) n s = (1, s\<lparr>cache_arr := Some ?new, cache_size := n\<rparr>)"
      by (rule resize_array [OF h])
    moreover have "int (length ?new) = n"
      using h(4) resized_length [where n = "nat n" and es = es and g = g] by simp
    moreover have "?new ! i = es ! i" if "i < min (nat n) (length es)" for i
      using that resized_nth [where i = i and n = "nat n" and es = es and g = g] by simp
    moreover have "\<not> valid (?new ! i)" if "min (nat n) (length es) \<le> i \<and> i < nat n" for i
    proof -
      from that have "i < nat n" and "\<not> i < length es" by (auto simp: min_def split: if_splits)
      then show ?thesis
        using resized_nth [where i = i and n = "nat n" and es = es and g = g] by simp
    qed
    ultimately show ?thesis by blast
  qed
  have b: "cache_resize None n s = (- 1, s)" if "cache_arr s = Some es" "0 < cache_size s"
    using that by (simp add: cache_resize_def cache_enabled_def)
  have c: "n < 2 \<or> 4096 < n \<longrightarrow> cache_resize mem n s = (- 1, s)"
    by (auto simp: cache_resize_def)
  have d: "\<not> cache_enabled s \<longrightarrow> cache_resize mem n s = cache_create mem n s"
    by (auto simp: cache_resize_def cache_create_def)
  from a b c d show ?thesis by blast
qed

theorem cache_resize_spec_witness:
  "cache_resize (Some junk_mem) 2 tied_cache =
     (1, tied_cache\<lparr>cache_arr := Some
        [\<lparr>valid = True, disk_num = 0, block_num = 0, block = [], clock_accesses = 3\<rparr>,
         \<lparr>valid = True, disk_num = 0, block_num = 1, block = [], clock_accesses = 5\<rparr>],
        cache_size := 2\<rparr>) \<and>
   cache_resize None 2 tied_cache = (- 1, tied_cache) \<and>
   cache_resize (Some junk_mem) 4097 tied_cache = (- 1, tied_cache) \<and>
   cache_resize (Some junk_mem) 2 init_cache_state = cache_create (Some junk_mem) 2 init_cache_state"
proof -
  let ?es = "[\<lparr>valid = True, disk_num = 0, block_num = 0, block = [], clock_accesses = 3\<rparr>,
         \<lparr>valid = True, disk_num = 0, block_num = 1, block = [], clock_accesses = 5\<rparr>,
         \<lparr>valid = True, disk_num = 0, block_num = 2, block = [], clock_accesses = 5\<rparr>]"
  note inst = cache_resize_spec [of tied_cache ?es 2 junk_mem "Some junk_mem"]
  have hyp: "cache_arr tied_cache = Some ?es \<and> int (length ?es) = cache_size tied_cache \<and>
      0 < cache_size tied_cache \<and> (2::int) \<le> 2 \<and> (2::int) \<le> 4096"
    by (simp add: tied_cache_def)
  with inst obtain new where
    new: "cache_resize (Some junk_mem) 2 tied_cache =
            (1, tied_cache\<lparr>cache_arr := Some new, cache_size := 2\<rparr>)"
    and len: "int (length new) = 2"
    and pre: "\<forall>i<min (nat 2) (length ?es). new ! i = ?es ! i"
    and fail: "cache_resize None 2 tied_cache = (- 1, tied_cache)"
    by blast
  have "new = [?es ! 0, ?es ! 1]"
  proof (rule nth_equalityI)
    show "length new = length [?es ! 0, ?es ! 1]" using len by simp
  next
    fix i assume "i < length new"
    with len have "i = 0 \<or> i = 1" by auto
    with pre show "new ! i = [?es ! 0, ?es ! 1] ! i" by auto
  qed
  with new have 1: "cache_resize (Some junk_mem) 2 tied_cache =
     (1, tied_cache\<lparr>cache_arr := Some
        [\<lparr>valid = True, disk_num = 0, block_num = 0, block = [], clock_accesses = 3\<rparr>,
         \<lparr>valid = True, disk_num = 0, block_num = 1, block = [], clock_accesses = 5\<rparr>],
        cache_size := 2\<rparr>)"
    by simp
  have 3: "cache_resize (Some junk_mem) 4097 tied_cache = (- 1, tied_cache)"
    using cache_resize_spec [of tied_cache ?es 4097 junk_mem "Some junk_mem"] by simp
  have 4: "cache_resize (Some junk_mem) 2 init_cache_state =
           cache_create (Some junk_mem) 2 init_cache_state"
    using cache_resize_spec [of init_cache_state ?es 2 junk_mem "Some junk_mem"]
    by (simp add: cache_enabled_def init_cache_state_def)
  from 1 fail 3 4 show ?thesis by blast
qed

section \<open>Granting and revoking write permission\<close>

text \<open>
  Claim C10. In every state \<open>mdadm_write_permission\<close> and
  \<open>mdadm_revoke_write_permission\<close> return 0 and change the \<open>write_permission\<close> flag
  only: the mount flag and the state of the disk array are the ones before the call. The
  two functions do not take the operation interface at all, so no command, and in
  particular neither permission command of the array, is ever sent.
\<close>

theorem write_permission_frame:
  "mdadm_write_permission v = (0, v\<lparr>write_permission := True\<rparr>) \<and>
   mdadm_revoke_write_permission v = (0, v\<lparr>write_permission := False\<rparr>) \<and>
   mounted (snd (mdadm_write_permission v)) = mounted v \<and>
   jbod (snd (mdadm_write_permission v)) = jbod v \<and>
   mounted (snd (mdadm_revoke_write_permission v)) = mounted v \<and>
   jbod (snd (mdadm_revoke_write_permission v)) = jbod v"
  by (simp add: mdadm_write_permission_def mdadm_revoke_write_permission_def)

section \<open>Transfers of length zero\<close>

text \<open>
  Claim C2, as stated, fails for reads: while mounted, a read of length 0 that starts
  beyond the end of the volume is rejected by the range check of \<open>mdadm_read\<close>
  with -1.
\<close>

theorem zero_length_read_beyond_end:
  "mounted mounted_volume = 1 \<and> write_permission mounted_volume \<and>
   mdadm_read jbod_operation 1048577 0 None mounted_volume = (- 1, None, mounted_volume)"
  by (simp add: mounted_volume_def mdadm_read_def max_addr)

text \<open>
  Claim C2, amended. While mounted with write permission, a write of length 0 returns 0
  for every start address and every buffer, \<open>NULL\<close> included. While mounted, a read of
  length 0 returns 0 for every start address up to and including the size of the volume,
  and -1 for every start address beyond it. In all three cases the buffer, the flags and
  the disk array are left as they were, whatever the array would answer.
\<close>

theorem zero_length_transfers:
  "(mounted v \<noteq> 0 \<and> write_permission v \<longrightarrow> mdadm_write jop start_addr 0 write_buf v = (0, v)) \<and>
   (mounted v \<noteq> 0 \<and> unat start_addr \<le> 16 * 65536 \<longrightarrow>
      mdadm_read jop start_addr 0 read_buf v = (0, read_buf, v)) \<and>
   (mounted v \<noteq> 0 \<and> 16 * 65536 < unat start_addr \<longrightarrow>
      mdadm_read jop start_addr 0 read_buf v = (- 1, read_buf, v))"
proof -
  have oor: "(start_addr + 0 > 1048576 \<or> start_addr + 0 < start_addr) \<longleftrightarrow>
             16 * 65536 < unat start_addr"
    using range_check [of start_addr 0] by (simp add: out_of_range_def)
  have w: "mounted v \<noteq> 0 \<and> write_permission v \<longrightarrow>
           mdadm_write jop start_addr 0 write_buf v = (0, v)"
    by (simp add: mdadm_write_def)
  have r1: "mounted v \<noteq> 0 \<and> unat start_addr \<le> 16 * 65536 \<longrightarrow>
      mdadm_read jop start_addr 0 read_buf v = (0, read_buf, v)"
    using oor by (auto simp: mdadm_read_def max_addr Let_def read_loop_done)
  have r2: "mounted v \<noteq> 0 \<and> 16 * 65536 < unat start_addr \<longrightarrow>
      mdadm_read jop start_addr 0 read_buf v = (- 1, read_buf, v)"
    using oor by (auto simp: mdadm_read_def max_addr Let_def)
  from w r1 r2 show ?thesis by blast
qed

theorem zero_length_transfers_witness:
  "mdadm_write jbod_operation 2000000 0 None mounted_volume = (0, mounted_volume) \<and>
   mdadm_read jbod_operation 1048576 0 None mounted_volume = (0, None, mounted_volume) \<and>
   mdadm_read jbod_operation 2000000 0 None mounted_volume = (- 1, None, mounted_volume)"
  using zero_length_transfers [of mounted_volume jbod_operation 2000000 None None]
    zero_length_transfers [of mounted_volume jbod_operation 1048576 None None]
  by (simp add: mounted_volume_def)

section \<open>Rejected calls\<close>

text \<open>
  Claim C5, as stated, fails for writes of length 0: with the volume mounted and write
  permission granted, a write of length 0 whose start address lies beyond the volume
  returns 0 before the range check is reached.
\<close>

theorem zero_length_write_beyond_end:
  "mounted mounted_volume = 1 \<and> write_permission mounted_volume \<and>
   out_of_range 2000000 0 \<and>
   mdadm_write jbod_operation 2000000 0 None mounted_volume = (0, mounted_volume)"
  by (simp add: mounted_volume_def mdadm_write_def out_of_range_def)

text \<open>
  Claim C5, amended. A read whose length exceeds 1024 or whose range overflows or exceeds
  the volume, a write without permission, a write whose length exceeds 1024, and a write
  of nonzero length whose range overflows or exceeds the volume all return a negative
  value and leave the buffer, the flags and the disk array as they were, for every
  behaviour of the array: \<open>jbod_operation\<close> is not called. The value is the one of the
  first check that fails, in the order of the code: -2 for the length and -1 for the range
  once the earlier checks pass, -5 for a write without permission on a mounted volume. A
  write of length 0 is not rejected for its address, and does not call the array either.
\<close>

theorem rejected_calls_touch_nothing:
  "(1024 < unat len \<or> out_of_range start_addr len \<longrightarrow>
      (\<exists>r<0. mdadm_read jop start_addr len read_buf v = (r, read_buf, v))) \<and>
   (mounted v \<noteq> 0 \<and> 1024 < unat len \<longrightarrow>
      mdadm_read jop start_addr len read_buf v = (- 2, read_buf, v)) \<and>
   (mounted v \<noteq> 0 \<and> unat len \<le> 1024 \<and> (len = 0 \<or> read_buf \<noteq> None) \<and>
    out_of_range start_addr len \<longrightarrow>
      mdadm_read jop start_addr len read_buf v = (- 1, read_buf, v)) \<and>
   (\<not> write_permission v \<or> 1024 < unat len \<or> (len \<noteq> 0 \<and> out_of_range start_addr len) \<longrightarrow>
      (\<exists>r<0. mdadm_write jop start_addr len write_buf v = (r, v))) \<and>
   (mounted v \<noteq> 0 \<and> \<not> write_permission v \<longrightarrow>
      mdadm_write jop start_addr len write_buf v = (- 5, v)) \<and>
   (mounted v \<noteq> 0 \<and> write_permission v \<and> 1024 < unat len \<longrightarrow>
      mdadm_write jop start_addr len write_buf v = (- 2, v)) \<and>
   (mounted v \<noteq> 0 \<and> write_permission v \<and> unat len \<le> 1024 \<and> len \<noteq> 0 \<and> write_buf \<noteq> None \<and>
    out_of_range start_addr len \<longrightarrow>
      mdadm_write jop start_addr len write_buf v = (- 1, v)) \<and>
   (len = 0 \<longrightarrow> snd (mdadm_write jop start_addr len write_buf v) = v)"
proof -
  note checks = range_check [of start_addr len] len_check [of len]
  have r0: "1024 < unat len \<or> out_of_range start_addr len \<longrightarrow>
      (\<exists>r<0. mdadm_read jop start_addr len read_buf v = (r, read_buf, v))"
    using checks by (auto simp: mdadm_read_def max_addr Let_def)
  have r1: "mounted v \<noteq> 0 \<and> 1024 < unat len \<longrightarrow>
      mdadm_read jop start_addr len read_buf v = (- 2, read_buf, v)"
    using checks by (auto simp: mdadm_read_def max_addr Let_def)
  have r2: "mounted v \<noteq> 0 \<and> unat len \<le> 1024 \<and> (len = 0 \<or> read_buf \<noteq> None) \<and>
    out_of_range start_addr len \<longrightarrow>
      mdadm_read jop start_addr len read_buf v = (- 1, read_buf, v)"
    using checks by (auto simp: mdadm_read_def max_addr Let_def)
  have w0: "\<not> write_permission v \<or> 1024 < unat len \<or> (len \<noteq> 0 \<and> out_of_range start_addr len) \<longrightarrow>
      (\<exists>r<0. mdadm_write jop start_addr len write_buf v = (r, v))"
    using checks by (auto simp: mdadm_write_def max_addr Let_def)
  have w1: "mounted v \<noteq> 0 \<and> \<not> write_permission v \<longrightarrow>
      mdadm_write jop start_addr len write_buf v = (- 5, v)"
    by (simp add: mdadm_write_def)
  have w2: "mounted v \<noteq> 0 \<and> write_permission v \<and> 1024 < unat len \<longrightarrow>
      mdadm_write jop start_addr len write_buf v = (- 2, v)"
    using checks by (auto simp: mdadm_write_def max_addr Let_def)
  have w3: "mounted v \<noteq> 0 \<and> write_permission v \<and> unat len \<le> 1024 \<and> len \<noteq> 0 \<and>
    write_buf \<noteq> None \<and> out_of_range start_addr len \<longrightarrow>
      mdadm_write jop start_addr len write_buf v = (- 1, v)"
    using checks by (auto simp: mdadm_write_def max_addr Let_def)
  have w4: "len = 0 \<longrightarrow> snd (mdadm_write jop start_addr len write_buf v) = v"
    by (simp add: mdadm_write_def)
  from r0 r1 r2 w0 w1 w2 w3 w4 show ?thesis by blast
qed

theorem rejected_calls_touch_nothing_witness:
  "mdadm_read jbod_operation 0 2000 (Some []) mounted_volume = (- 2, Some [], mounted_volume) \<and>
   mdadm_read jbod_operation 1048570 10 (Some []) mounted_volume
     = (- 1, Some [], mounted_volume) \<and>
   mdadm_read jbod_operation 4294967290 10 (Some []) mounted_volume
     = (- 1, Some [], mounted_volume) \<and>
   mdadm_write jbod_operation 0 1 (Some [7]) (mounted_volume\<lparr>write_permission := False\<rparr>)
     = (- 5, mounted_volume\<lparr>write_permission := False\<rparr>) \<and>
   mdadm_write jbod_operation 0 2000 (Some [7]) mounted_volume = (- 2, mounted_volume) \<and>
   mdadm_write jbod_operation 1048570 10 (Some [7]) mounted_volume = (- 1, mounted_volume)"
proof -
  have 1: "mdadm_read jbod_operation 0 2000 (Some []) mounted_volume
             = (- 2, Some [], mounted_volume)"
    using rejected_calls_touch_nothing
            [of 2000 0 jbod_operation "Some []" mounted_volume "Some [7]"]
    by (simp add: mounted_volume_def)
  have 2: "mdadm_read jbod_operation 1048570 10 (Some []) mounted_volume
             = (- 1, Some [], mounted_volume)"
    using rejected_calls_touch_nothing
            [of 10 1048570 jbod_operation "Some []" mounted_volume "Some [7]"]
    by (simp add: mounted_volume_def out_of_range_def)
  have 3: "mdadm_read jbod_operation 4294967290 10 (Some []) mounted_volume
             = (- 1, Some [], mounted_volume)"
    using rejected_calls_touch_nothing
            [of 10 4294967290 jbod_operation "Some []" mounted_volume "Some [7]"]
    by (simp add: mounted_volume_def out_of_range_def)
  have 4: "mdadm_write jbod_operation 0 1 (Some [7]) (mounted_volume\<lparr>write_permission := False\<rparr>)
             = (- 5, mounted_volume\<lparr>write_permission := False\<rparr>)"
    using rejected_calls_touch_nothing
            [of 1 0 jbod_operation "Some []" "mounted_volume\<lparr>write_permission := False\<rparr>"
                "Some [7]"]
    by (simp add: mounted_volume_def)
  have 5: "mdadm_write jbod_operation 0 2000 (Some [7]) mounted_volume = (- 2, mounted_volume)"
    using rejected_calls_touch_nothing
            [of 2000 0 jbod_operation "Some []" mounted_volume "Some [7]"]
    by (simp add: mounted_volume_def)
  have 6: "mdadm_write jbod_operation 1048570 10 (Some [7]) mounted_volume
             = (- 1, mounted_volume)"
    using rejected_calls_touch_nothing
            [of 10 1048570 jbod_operation "Some []" mounted_volume "Some [7]"]
    by (simp add: mounted_volume_def out_of_range_def)
  from 1 2 3 4 5 6 show ?thesis by blast
qed

section \<open>Address translation\<close>

text \<open>
  Claim C4. Both loops compute their position with \<open>segment\<close>. For a position
  \<open>a = start_addr + bytes_done\<close> inside the volume, with \<open>bytes_done\<close> not beyond the
  length of the call, it yields the disk \<open>a div 65536\<close>, the block
  \<open>a mod 65536 div 256\<close>, the offset \<open>a mod 65536 mod 256\<close>, and as segment length the
  smaller of the bytes that remain and \<open>256 - offset\<close>. The witness has the three
  addresses of the claim: 0, 65536 and 300.
\<close>

theorem address_translation:
  assumes "unat start_addr + unat bytes_done < 16 * 65536" and "bytes_done \<le> len"
  shows "segment start_addr len bytes_done =
           (of_nat ((unat start_addr + unat bytes_done) div 65536),
            of_nat ((unat start_addr + unat bytes_done) mod 65536 div 256),
            of_nat ((unat start_addr + unat bytes_done) mod 65536 mod 256),
            of_nat (min (unat len - unat bytes_done)
                        (256 - (unat start_addr + unat bytes_done) mod 65536 mod 256)))"
proof -
  obtain dn bn off n where seg: "segment start_addr len bytes_done = (dn, bn, off, n)"
    by (cases "segment start_addr len bytes_done") auto
  note u = segment_unat [OF assms seg]
  have "dn = of_nat (unat dn)" "bn = of_nat (unat bn)" "off = of_nat (unat off)"
    "n = of_nat (unat n)"
    by simp_all
  then show ?thesis
    unfolding seg u by simp
qed

theorem address_translation_witness:
  "segment 0 1 0 = (0, 0, 0, 1) \<and>
   segment 65536 1024 0 = (1, 0, 0, 256) \<and>
   segment 300 5 0 = (0, 1, 44, 5) \<and>
   segment 200 100 56 = (0, 1, 0, 44)"
  using address_translation [of 0 0 1] address_translation [of 65536 0 1024]
    address_translation [of 300 0 5] address_translation [of 200 56 100]
  by simp

section \<open>Result values of failures\<close>

text \<open>
  Claim C8, as stated, fails: a read with a \<open>NULL\<close> buffer and a read whose first
  command the disk array refuses are different failures (the first is the spec's
  NullBuffer, the second passes every argument check and is a DeviceError), and both
  return -4.
\<close>

theorem null_buffer_and_device_error_collide:
  "read_failure mounted_volume 0 1 None = Some NullBuffer \<and>
   read_failure broken_volume 0 1 (Some [0]) = None \<and>
   fst (mdadm_read jbod_operation 0 1 None mounted_volume) = - 4 \<and>
   fst (mdadm_read jbod_broken 0 1 (Some [0]) broken_volume) = - 4"
  by (simp add: read_failure_def out_of_range_def mounted_volume_def broken_volume_def
      mdadm_read_def max_addr read_loop.simps [of _ _ 1 0] segment_def Let_def jbod_broken_def)

text \<open>
  Claim C8, amended. Every failure of \<open>mdadm_read\<close> and \<open>mdadm_write\<close> is reported by
  a negative value: NotMounted by -3, PermissionDenied by -5, LengthTooLarge by -2,
  OutOfRange by -1, and both NullBuffer and DeviceError by -4. Two different kinds have
  different values except for the pair NullBuffer and DeviceError. A call that fails an
  argument check sends no command. A call that passes them returns the value of
  DeviceError exactly when the array refuses one of the commands the call sends, and the
  length, which is not negative, exactly when the array accepts them all; recording the
  commands changes neither the result nor the state of the array.
\<close>

theorem failure_values:
  "(\<forall>k. read_failure v start_addr len buf = Some k \<longrightarrow>
        mdadm_read jop start_addr len buf v = (result_value k, buf, v)) \<and>
   (read_failure v start_addr len buf = None \<longrightarrow>
        fst (mdadm_read jop start_addr len buf v) = uint len \<or>
        fst (mdadm_read jop start_addr len buf v) = result_value DeviceError) \<and>
   (read_failure v start_addr len buf = None \<and> (\<forall>op b s. fst (jop op b s) = 0) \<longrightarrow>
        fst (mdadm_read jop start_addr len buf v) = uint len) \<and>
   (\<forall>k. write_failure v start_addr len buf = Some k \<longrightarrow>
        mdadm_write jop start_addr len buf v = (result_value k, v)) \<and>
   (write_failure v start_addr len buf = None \<longrightarrow>
        fst (mdadm_write jop start_addr len buf v) = uint len \<or>
        fst (mdadm_write jop start_addr len buf v) = result_value DeviceError) \<and>
   (write_failure v start_addr len buf = None \<and> (\<forall>op b s. fst (jop op b s) = 0) \<longrightarrow>
        fst (mdadm_write jop start_addr len buf v) = uint len) \<and>
   (\<forall>k. result_value k < 0) \<and>
   (\<forall>k k'. result_value k = result_value k' \<longleftrightarrow>
        k = k' \<or> (k = NullBuffer \<and> k' = DeviceError) \<or> (k = DeviceError \<and> k' = NullBuffer)) \<and>
   (fst (mdadm_read (recording jop) start_addr len buf (recorded v))
      = fst (mdadm_read jop start_addr len buf v) \<and>
    fst (jbod (snd (snd (mdadm_read (recording jop) start_addr len buf (recorded v)))))
      = jbod (snd (snd (mdadm_read jop start_addr len buf v)))) \<and>
   (read_failure v start_addr len buf \<noteq> None \<longrightarrow> read_answers jop start_addr len buf v = []) \<and>
   (read_failure v start_addr len buf = None \<longrightarrow>
      (fst (mdadm_read jop start_addr len buf v) = result_value DeviceError \<longleftrightarrow>
         refused (read_answers jop start_addr len buf v)) \<and>
      (fst (mdadm_read jop start_addr len buf v) = uint len \<longleftrightarrow>
         \<not> refused (read_answers jop start_addr len buf v))) \<and>
   (fst (mdadm_write (recording jop) start_addr len buf (recorded v))
      = fst (mdadm_write jop start_addr len buf v) \<and>
    fst (jbod (snd (mdadm_write (recording jop) start_addr len buf (recorded v))))
      = jbod (snd (mdadm_write jop start_addr len buf v))) \<and>
   (write_failure v start_addr len buf \<noteq> None \<longrightarrow> write_answers jop start_addr len buf v = []) \<and>
   (write_failure v start_addr len buf = None \<longrightarrow>
      (fst (mdadm_write jop start_addr len buf v) = result_value DeviceError \<longleftrightarrow>
         refused (write_answers jop start_addr len buf v)) \<and>
      (fst (mdadm_write jop start_addr len buf v) = uint len \<longleftrightarrow>
         \<not> refused (write_answers jop start_addr len buf v)))"
proof -
  note checks = range_check [of start_addr len] len_check [of len]
  have r1: "\<forall>k. read_failure v start_addr len buf = Some k \<longrightarrow>
        mdadm_read jop start_addr len buf v = (result_value k, buf, v)"
    using checks by (auto simp: read_failure_def mdadm_read_def max_addr Let_def split: if_splits)
  have rl: "read_failure v start_addr len buf = None \<Longrightarrow>
        fst (mdadm_read jop start_addr len buf v) =
        fst (read_loop jop start_addr len 0 buf (jbod v))"
    using checks
    by (auto simp: read_failure_def mdadm_read_def max_addr Let_def split: if_splits prod.splits)
  have r2: "read_failure v start_addr len buf = None \<longrightarrow>
        fst (mdadm_read jop start_addr len buf v) = uint len \<or>
        fst (mdadm_read jop start_addr len buf v) = result_value DeviceError"
    using rl read_loop_result [of 0 len jop start_addr buf "jbod v"] by auto
  have r3: "read_failure v start_addr len buf = None \<and> (\<forall>op b s. fst (jop op b s) = 0) \<longrightarrow>
        fst (mdadm_read jop start_addr len buf v) = uint len"
    using rl read_loop_result [of 0 len jop start_addr buf "jbod v"] by auto
  have w1: "\<forall>k. write_failure v start_addr len buf = Some k \<longrightarrow>
        mdadm_write jop start_addr len buf v = (result_value k, v)"
    using checks by (auto simp: write_failure_def mdadm_write_def max_addr Let_def split: if_splits)
  have wl: "write_failure v start_addr len buf = None \<Longrightarrow>
        fst (mdadm_write jop start_addr len buf v) =
        fst (write_loop jop start_addr len 0 (case buf of None \<Rightarrow> [] | Some b \<Rightarrow> b) (jbod v))"
    using checks
    by (auto simp: write_failure_def mdadm_write_def max_addr Let_def write_loop_done
        split: if_splits prod.splits)
  have w2: "write_failure v start_addr len buf = None \<longrightarrow>
        fst (mdadm_write jop start_addr len buf v) = uint len \<or>
        fst (mdadm_write jop start_addr len buf v) = result_value DeviceError"
    using wl write_loop_result
            [of 0 len jop start_addr "case buf of None \<Rightarrow> [] | Some b \<Rightarrow> b" "jbod v"]
    by auto
  have w3: "write_failure v start_addr len buf = None \<and> (\<forall>op b s. fst (jop op b s) = 0) \<longrightarrow>
        fst (mdadm_write jop start_addr len buf v) = uint len"
    using wl write_loop_result
            [of 0 len jop start_addr "case buf of None \<Rightarrow> [] | Some b \<Rightarrow> b" "jbod v"]
    by auto
  have neg: "\<forall>k. result_value k < 0"
  proof
    fix k show "result_value k < 0" by (cases k) simp_all
  qed
  have inj: "\<forall>k k'. result_value k = result_value k' \<longleftrightarrow>
        k = k' \<or> (k = NullBuffer \<and> k' = DeviceError) \<or> (k = DeviceError \<and> k' = NullBuffer)"
  proof (intro allI)
    fix k k' show "result_value k = result_value k' \<longleftrightarrow>
        k = k' \<or> (k = NullBuffer \<and> k' = DeviceError) \<or> (k = DeviceError \<and> k' = NullBuffer)"
      by (cases k; cases k') simp_all
  qed
  have "0 \<le> uint len"
    by simp
  then have nonneg: "uint len \<noteq> - 4"
    by linarith
  obtain r out d' new where
    rr: "mdadm_read (recording jop) start_addr len buf (recorded v)
           = (r, out, \<lparr>mounted = mounted v, write_permission = write_permission v,
                       jbod = (d', new)\<rparr>)"
      "mdadm_read jop start_addr len buf v = (r, out, v\<lparr>jbod := d'\<rparr>)"
      "read_failure v start_addr len buf \<noteq> None \<longrightarrow> new = []"
      "read_failure v start_addr len buf = None \<longrightarrow>
         (if refused new then r = - 4 else r = uint len)"
    using mdadm_read_recorded [of jop start_addr len buf v] by (elim exE conjE) (rule that)
  have ra: "read_answers jop start_addr len buf v = new"
    by (simp add: read_answers_def rr(1))
  have r4: "fst (mdadm_read (recording jop) start_addr len buf (recorded v))
              = fst (mdadm_read jop start_addr len buf v) \<and>
            fst (jbod (snd (snd (mdadm_read (recording jop) start_addr len buf (recorded v)))))
              = jbod (snd (snd (mdadm_read jop start_addr len buf v)))"
    by (simp add: rr(1,2))
  have r5: "read_failure v start_addr len buf \<noteq> None \<longrightarrow>
              read_answers jop start_addr len buf v = []"
    using rr(3) by (simp add: ra)
  have r6: "read_failure v start_addr len buf = None \<longrightarrow>
      (fst (mdadm_read jop start_addr len buf v) = result_value DeviceError \<longleftrightarrow>
         refused (read_answers jop start_addr len buf v)) \<and>
      (fst (mdadm_read jop start_addr len buf v) = uint len \<longleftrightarrow>
         \<not> refused (read_answers jop start_addr len buf v))"
    using rr(4) nonneg by (auto simp: ra rr(2) split: if_splits)
  obtain r' d'' new' where
    ww: "mdadm_write (recording jop) start_addr len buf (recorded v)
           = (r', \<lparr>mounted = mounted v, write_permission = write_permission v,
                   jbod = (d'', new')\<rparr>)"
      "mdadm_write jop start_addr len buf v = (r', v\<lparr>jbod := d''\<rparr>)"
      "write_failure v start_addr len buf \<noteq> None \<longrightarrow> new' = []"
      "write_failure v start_addr len buf = None \<longrightarrow>
         (if refused new' then r' = - 4 else r' = uint len)"
    using mdadm_write_recorded [of jop start_addr len buf v] by (elim exE conjE) (rule that)
  have wa: "write_answers jop start_addr len buf v = new'"
    by (simp add: write_answers_def ww(1))
  have w4: "fst (mdadm_write (recording jop) start_addr len buf (recorded v))
              = fst (mdadm_write jop start_addr len buf v) \<and>
            fst (jbod (snd (mdadm_write (recording jop) start_addr len buf (recorded v))))
              = jbod (snd (mdadm_write jop start_addr len buf v))"
    by (simp add: ww(1,2))
  have w5: "write_failure v start_addr len buf \<noteq> None \<longrightarrow>
              write_answers jop start_addr len buf v = []"
    using ww(3) by (simp add: wa)
  have w6: "write_failure v start_addr len buf = None \<longrightarrow>
      (fst (mdadm_write jop start_addr len buf v) = result_value DeviceError \<longleftrightarrow>
         refused (write_answers jop start_addr len buf v)) \<and>
      (fst (mdadm_write jop start_addr len buf v) = uint len \<longleftrightarrow>
         \<not> refused (write_answers jop start_addr len buf v))"
    using ww(4) nonneg by (auto simp: wa ww(2) split: if_splits)
  show ?thesis
    by (intro conjI r1 r2 r3 w1 w2 w3 neg inj r4 r5 r6 w4 w5 w6)
qed

theorem failure_values_witness:
  "mdadm_read jbod_operation 0 1 (Some [0]) (mounted_volume\<lparr>mounted := 0\<rparr>)
     = (- 3, Some [0], mounted_volume\<lparr>mounted := 0\<rparr>) \<and>
   mdadm_read jbod_operation 0 2000 (Some [0]) mounted_volume = (- 2, Some [0], mounted_volume) \<and>
   mdadm_read jbod_operation 0 1 None mounted_volume = (- 4, None, mounted_volume) \<and>
   mdadm_read jbod_operation 1048576 1 (Some [0]) mounted_volume
     = (- 1, Some [0], mounted_volume) \<and>
   mdadm_write jbod_operation 0 1 (Some [0]) (mounted_volume\<lparr>write_permission := False\<rparr>)
     = (- 5, mounted_volume\<lparr>write_permission := False\<rparr>) \<and>
   fst (mdadm_read (\<lambda>op b s. (0, b, s)) 0 1 (Some [0]) broken_volume) = 1 \<and>
   fst (mdadm_write (\<lambda>op b s. (0, b, s)) 0 1 (Some [0]) broken_volume) = 1 \<and>
   read_answers jbod_broken 0 1 (Some [0]) broken_volume
     = [(encode_op JBOD_SEEK_TO_DISK 0 0, - 1)] \<and>
   fst (mdadm_read jbod_broken 0 1 (Some [0]) broken_volume) = - 4 \<and>
   write_answers refuse_write 0 1 (Some [0]) broken_volume
     = [(encode_op JBOD_SEEK_TO_DISK 0 0, 0), (encode_op JBOD_SEEK_TO_BLOCK 0 0, 0),
        (encode_op JBOD_READ_BLOCK 0 0, 0), (encode_op JBOD_WRITE_BLOCK 0 0, - 1)] \<and>
   fst (mdadm_write refuse_write 0 1 (Some [0]) broken_volume) = - 4"
proof -
  have 1: "mdadm_read jbod_operation 0 1 (Some [0]) (mounted_volume\<lparr>mounted := 0\<rparr>)
     = (- 3, Some [0], mounted_volume\<lparr>mounted := 0\<rparr>)"
    using failure_values [of "mounted_volume\<lparr>mounted := 0\<rparr>" 0 1 "Some [0]" jbod_operation]
    by (simp add: read_failure_def)
  have 2: "mdadm_read jbod_operation 0 2000 (Some [0]) mounted_volume
     = (- 2, Some [0], mounted_volume)"
    using failure_values [of mounted_volume 0 2000 "Some [0]" jbod_operation]
    by (simp add: read_failure_def mounted_volume_def)
  have 3: "mdadm_read jbod_operation 0 1 None mounted_volume = (- 4, None, mounted_volume)"
    using failure_values [of mounted_volume 0 1 None jbod_operation]
    by (simp add: read_failure_def mounted_volume_def)
  have 4: "mdadm_read jbod_operation 1048576 1 (Some [0]) mounted_volume
     = (- 1, Some [0], mounted_volume)"
    using failure_values [of mounted_volume 1048576 1 "Some [0]" jbod_operation]
    by (simp add: read_failure_def mounted_volume_def out_of_range_def)
  have 5: "mdadm_write jbod_operation 0 1 (Some [0]) (mounted_volume\<lparr>write_permission := False\<rparr>)
     = (- 5, mounted_volume\<lparr>write_permission := False\<rparr>)"
    using failure_values [of "mounted_volume\<lparr>write_permission := False\<rparr>" 0 1 "Some [0]"
                             jbod_operation]
    by (simp add: write_failure_def mounted_volume_def)
  have 6: "fst (mdadm_read (\<lambda>op b s. (0, b, s)) 0 1 (Some [0]) broken_volume) = 1"
    using failure_values [of broken_volume 0 1 "Some [0]" "\<lambda>op b s. (0, b, s)"]
    by (simp add: read_failure_def broken_volume_def out_of_range_def)
  have 7: "fst (mdadm_write (\<lambda>op b s. (0, b, s)) 0 1 (Some [0]) broken_volume) = 1"
    using failure_values [of broken_volume 0 1 "Some [0]" "\<lambda>op b s. (0, b, s)"]
    by (simp add: write_failure_def broken_volume_def out_of_range_def)
  have seg: "segment 0 1 0 = (0, 0, 0, 1)"
    by (simp add: segment_def JBOD_DISK_SIZE_def JBOD_BLOCK_SIZE_def)
  have 8: "read_answers jbod_broken 0 1 (Some [0]) broken_volume
             = [(encode_op JBOD_SEEK_TO_DISK 0 0, - 1)]"
    by (simp add: read_answers_def mdadm_read_def recorded_def broken_volume_def max_addr
        read_loop.simps [of _ _ 1 0] seg recording_def jbod_broken_def)
  have rf: "read_failure broken_volume 0 1 (Some [0]) = None"
    by (simp add: read_failure_def broken_volume_def out_of_range_def)
  have wf: "write_failure broken_volume 0 1 (Some [0]) = None"
    by (simp add: write_failure_def broken_volume_def out_of_range_def)
  have 9: "fst (mdadm_read jbod_broken 0 1 (Some [0]) broken_volume) = - 4"
    using failure_values [of broken_volume 0 1 "Some [0]" jbod_broken] rf
    by (simp add: 8 refused_def)
  have words: "encode_op JBOD_SEEK_TO_DISK 0 0 \<noteq> encode_op JBOD_WRITE_BLOCK 0 0"
    "encode_op JBOD_SEEK_TO_BLOCK 0 0 \<noteq> encode_op JBOD_WRITE_BLOCK 0 0"
    "encode_op JBOD_READ_BLOCK 0 0 \<noteq> encode_op JBOD_WRITE_BLOCK 0 0"
    by (simp_all add: encode_op_def JBOD_SEEK_TO_DISK_def JBOD_SEEK_TO_BLOCK_def
        JBOD_READ_BLOCK_def JBOD_WRITE_BLOCK_def)
  have 10: "write_answers refuse_write 0 1 (Some [0]) broken_volume
     = [(encode_op JBOD_SEEK_TO_DISK 0 0, 0), (encode_op JBOD_SEEK_TO_BLOCK 0 0, 0),
        (encode_op JBOD_READ_BLOCK 0 0, 0), (encode_op JBOD_WRITE_BLOCK 0 0, - 1)]"
    by (simp add: write_answers_def mdadm_write_def recorded_def broken_volume_def max_addr
        write_loop.simps [of _ _ 1 0] seg recording_def refuse_write_def words
        JBOD_BLOCK_SIZE_def)
  have 11: "fst (mdadm_write refuse_write 0 1 (Some [0]) broken_volume) = - 4"
    using failure_values [of broken_volume 0 1 "Some [0]" refuse_write] wf
    by (simp add: 10 refused_def)
  from 1 2 3 4 5 6 7 8 9 10 11 show ?thesis by blast
qed

section \<open>Read-modify-write of a segment\<close>

text \<open>
  Claim C3. Take any iteration of the loop of \<open>mdadm_write\<close> on an in-range write, with
  the disk array of the spec mounted and the caller's buffer as long as the write. The
  iteration whose segment is (disk, block, offset, length) sends seek-to-disk and
  seek-to-block, then read-block exactly when the length is below 256 or the offset is not
  0, then write-block, and nothing else; a segment that covers a whole aligned block is
  written without a read. It replaces the block under (disk, block) by a block of 256
  bytes that holds the caller's bytes at the offset and, outside the written range, the
  bytes the block held before; no other block changes. The loop then goes on behind the
  segment. (\<open>mdadm_write_volume\<close> has the effect of the whole call.)
\<close>

theorem write_segment_read_modify_write:
  assumes dev: "dev_mounted d"
    and wf: "length (store d (unat dn) (unat bn)) = 256"
    and pos: "bytes_written < write_len"
    and rng: "unat start_addr + unat write_len \<le> 16 * 65536"
    and buf: "unat write_len \<le> length write_buf"
    and seg: "segment start_addr write_len bytes_written = (dn, bn, off, n)"
  shows "\<exists>new.
           write_loop jbod_operation start_addr write_len bytes_written write_buf d =
             write_loop jbod_operation start_addr write_len (bytes_written + n) write_buf
               (d\<lparr>issued := issued d @
                      [encode_op JBOD_SEEK_TO_DISK (ucast dn) 0,
                       encode_op JBOD_SEEK_TO_BLOCK 0 (ucast bn)] @
                      (if n < 256 \<or> off \<noteq> 0 then [encode_op JBOD_READ_BLOCK 0 0] else []) @
                      [encode_op JBOD_WRITE_BLOCK 0 0],
                   cur_disk := unat dn,
                   cur_block := unat bn,
                   store := (store d)(unat dn := (store d (unat dn))(unat bn := new))\<rparr>) \<and>
           length new = 256 \<and>
           (\<forall>i<unat n. new ! (unat off + i) = write_buf ! (unat bytes_written + i)) \<and>
           (\<forall>i<256. i < unat off \<or> unat off + unat n \<le> i \<longrightarrow>
                     new ! i = store d (unat dn) (unat bn) ! i)"
  using assms by (rule write_loop_step)

theorem write_segment_read_modify_write_witness:
  "fst (mdadm_write jbod_operation 300 3 (Some [1, 2, 3]) patterned_volume) = 3 \<and>
   issued (jbod (snd (mdadm_write jbod_operation 300 3 (Some [1, 2, 3]) patterned_volume))) =
     [encode_op JBOD_SEEK_TO_DISK 0 0, encode_op JBOD_SEEK_TO_BLOCK 0 1,
      encode_op JBOD_READ_BLOCK 0 0, encode_op JBOD_WRITE_BLOCK 0 0] \<and>
   map ((!) (store (jbod (snd (mdadm_write jbod_operation 300 3 (Some [1, 2, 3])
                                  patterned_volume))) 0 1))
       [43, 44, 45, 46, 47] = [0xAA, 1, 2, 3, 0xAA] \<and>
   fst (mdadm_write jbod_operation 512 256 (Some (replicate 256 5)) patterned_volume) = 256 \<and>
   issued (jbod (snd (mdadm_write jbod_operation 512 256 (Some (replicate 256 5))
                        patterned_volume))) =
     [encode_op JBOD_SEEK_TO_DISK 0 0, encode_op JBOD_SEEK_TO_BLOCK 0 2,
      encode_op JBOD_WRITE_BLOCK 0 0]"
proof -
  have seg1: "segment 300 3 0 = (0, 1, 44, 3)"
    by (simp add: segment_def JBOD_DISK_SIZE_def JBOD_BLOCK_SIZE_def)
  have seg2: "segment 512 256 0 = (0, 2, 0, 256)"
    by (simp add: segment_def JBOD_DISK_SIZE_def JBOD_BLOCK_SIZE_def)
  obtain new where
    step: "write_loop jbod_operation 300 3 0 [1, 2, 3] patterned_dev =
             write_loop jbod_operation 300 3 3 [1, 2, 3]
               (patterned_dev\<lparr>issued :=
                      [encode_op JBOD_SEEK_TO_DISK 0 0, encode_op JBOD_SEEK_TO_BLOCK 0 1,
                       encode_op JBOD_READ_BLOCK 0 0, encode_op JBOD_WRITE_BLOCK 0 0],
                   cur_disk := 0, cur_block := 1,
                   store := (store patterned_dev)(0 := (store patterned_dev 0)(1 := new))\<rparr>)"
    and ins: "\<forall>i<3. new ! (44 + i) = [1, 2, 3 :: byte] ! i"
    and out: "\<forall>i<256. i < 44 \<or> 47 \<le> i \<longrightarrow> new ! i = store patterned_dev 0 1 ! i"
    using write_segment_read_modify_write
            [of patterned_dev 0 1 0 3 300 "[1, 2, 3]" 44 3, OF _ _ _ _ _ seg1]
    by (auto simp: patterned_dev_def)
  have w1: "mdadm_write jbod_operation 300 3 (Some [1, 2, 3]) patterned_volume =
          (3, patterned_volume\<lparr>jbod := patterned_dev\<lparr>issued :=
                      [encode_op JBOD_SEEK_TO_DISK 0 0, encode_op JBOD_SEEK_TO_BLOCK 0 1,
                       encode_op JBOD_READ_BLOCK 0 0, encode_op JBOD_WRITE_BLOCK 0 0],
                   cur_disk := 0, cur_block := 1,
                   store := (store patterned_dev)(0 := (store patterned_dev 0)(1 := new))\<rparr>\<rparr>)"
    by (simp add: mdadm_write_def patterned_volume_def max_addr step write_loop_done)
  have bytes: "map ((!) new) [43, 44, 45, 46, 47] = [0xAA, 1, 2, 3, 0xAA]"
    using ins [rule_format, of 0] ins [rule_format, of 1] ins [rule_format, of 2]
      out [rule_format, of 43] out [rule_format, of 47]
    by (simp add: patterned_dev_def)
  obtain new2 where
    step2: "write_loop jbod_operation 512 256 0 (replicate 256 5) patterned_dev =
             write_loop jbod_operation 512 256 256 (replicate 256 5)
               (patterned_dev\<lparr>issued :=
                      [encode_op JBOD_SEEK_TO_DISK 0 0, encode_op JBOD_SEEK_TO_BLOCK 0 2,
                       encode_op JBOD_WRITE_BLOCK 0 0],
                   cur_disk := 0, cur_block := 2,
                   store := (store patterned_dev)(0 := (store patterned_dev 0)(2 := new2))\<rparr>)"
    using write_segment_read_modify_write
            [of patterned_dev 0 2 0 256 512 "replicate 256 5" 0 256, OF _ _ _ _ _ seg2]
    by (auto simp: patterned_dev_def)
  have w2: "mdadm_write jbod_operation 512 256 (Some (replicate 256 5)) patterned_volume =
          (256, patterned_volume\<lparr>jbod := patterned_dev\<lparr>issued :=
                      [encode_op JBOD_SEEK_TO_DISK 0 0, encode_op JBOD_SEEK_TO_BLOCK 0 2,
                       encode_op JBOD_WRITE_BLOCK 0 0],
                   cur_disk := 0, cur_block := 2,
                   store := (store patterned_dev)(0 := (store patterned_dev 0)(2 := new2))\<rparr>\<rparr>)"
    by (simp add: mdadm_write_def patterned_volume_def max_addr step2 write_loop_done)
  show ?thesis
    unfolding w1 w2 using bytes by simp
qed

end
